theory Spec2Isabelle
  imports Main "HOL-Library.Char_ord" "HOL-Library.List_Lexorder" "HOL-Library.Multiset"
begin

section \<open>The corpus module of the morphological tagger\<close>

text \<open>
  A shallow embedding of \<^verbatim>\<open>morphological_tagging/data/corpus.py\<close>: the classes
  \<^verbatim>\<open>Tree\<close>, \<^verbatim>\<open>Document\<close> and \<^verbatim>\<open>DocumentCorpus\<close> and the passes
  \<^verbatim>\<open>parse_tree_file\<close>, \<^verbatim>\<open>_get_vocabs\<close>, \<^verbatim>\<open>_move_to_pt\<close>,
  \<^verbatim>\<open>set_lemma_tags\<close> and \<^verbatim>\<open>add_context_embs\<close>.

  A Python \<^verbatim>\<open>str\<close> is a \<^typ>\<open>string\<close>, one \<^typ>\<open>char\<close> for each code point; the
  order on strings is the lexicographic order by code, as Python's. A Python exception is
  a value of type \<open>error\<close>. The methods mutate the corpus and its documents in place, and
  an exception leaves behind what was mutated before it: a method is a function from
  the state to the state it leaves and the exception it raised, if any.
\<close>

subsection \<open>Exceptions\<close>

datatype error =
    FormatError     \<comment> \<open>\<^verbatim>\<open>ValueError\<close>: the ten-way unpacking in \<^verbatim>\<open>Tree.add\<close>\<close>
  | AlignmentError  \<comment> \<open>\<^verbatim>\<open>AttributeError\<close>: \<^verbatim>\<open>match\<close> is \<^verbatim>\<open>None\<close> in \<^verbatim>\<open>add_context_embs\<close>\<close>
  | UnbuiltVocabularyError  \<comment> \<open>\<^verbatim>\<open>AttributeError\<close>: a vocabulary attribute that is not set\<close>
  | TorchError      \<comment> \<open>an exception raised inside \<^verbatim>\<open>torch\<close> or \<^verbatim>\<open>torchtext\<close>\<close>
  | IndexError
  | KeyError
  | TypeError

type_synonym 's outcome = "'s \<times> error option"

subsection \<open>Strings\<close>

text \<open>\<^verbatim>\<open>hay.startswith(s)\<close>\<close>

fun startswith :: "string \<Rightarrow> string \<Rightarrow> bool" where
  "startswith hay [] = True"
| "startswith [] (c # s) = False"
| "startswith (h # hay) (c # s) = (h = c \<and> startswith hay s)"

text \<open>\<^verbatim>\<open>s in hay\<close> on strings: \<open>s\<close> occurs in \<open>hay\<close> as a contiguous piece.\<close>

fun contains :: "string \<Rightarrow> string \<Rightarrow> bool" where
  "contains s [] = (s = [])"
| "contains s (h # hay) = (startswith (h # hay) s \<or> contains s hay)"

text \<open>
  \<^verbatim>\<open>s.split(sep)\<close> and \<^verbatim>\<open>s.rsplit(sep)\<close> for a separator of one character (without a
  limit on the number of splits the two agree): \<open>n\<close> separators give \<open>n + 1\<close> pieces,
  empty ones included.
\<close>

fun split_on :: "char \<Rightarrow> string \<Rightarrow> string list" where
  "split_on sep [] = [[]]"
| "split_on sep (c # s) =
     (if c = sep then [] # split_on sep s
      else (case split_on sep s of [] \<Rightarrow> [[c]] | p # ps \<Rightarrow> (c # p) # ps))"

subsection \<open>Tree\<close>

type_synonym row = "string list"

record Tree =
  raw :: "(string \<times> string \<times> string) list"
  tokens :: "string list"
  lemmata :: "string list"
  morph_tags :: "string list list"

definition Tree_init :: Tree where
  "Tree_init = \<lparr>raw = [], tokens = [], lemmata = [], morph_tags = []\<rparr>"

text \<open>
  \<^verbatim>\<open>Tree.add\<close>. The unpacking into ten names raises \<^verbatim>\<open>ValueError\<close> on a branch of
  any other length, before anything is appended.
\<close>

fun Tree_add :: "Tree \<Rightarrow> row \<Rightarrow> error + Tree" where
  "Tree_add t [f0, word_form, lemma, f3, f4, mtags, f6, f7, f8, f9] =
     Inr (t\<lparr>raw := raw t @ [(word_form, lemma, mtags)],
            tokens := tokens t @ [word_form],
            lemmata := lemmata t @ [lemma],
            morph_tags := morph_tags t @ [split_on (CHR '';'') mtags]\<rparr>)"
| "Tree_add t branch = Inl FormatError"

subsection \<open>Document\<close>

text \<open>
  A matrix of integers with its number of columns (a matrix without rows still has one);
  the number of rows is the length of \<open>rows\<close>.
\<close>

record matrix =
  ncols :: nat
  rows :: "nat list list"

text \<open>
  The attributes that the passes attach are absent until set. The encoder gives one
  hidden state for each sub-word token of the text, the structural first and last ones
  included, and a row of the contextual embedding is the mean of some of them: the model
  names a hidden state by its position in that sequence and keeps, for each row, the
  positions of the hidden states it averages, and the name of the encoder.
\<close>

record Document =
  sent_id :: "string option"
  doc_text :: "string option"
  tree :: Tree
  chars_tensor :: "nat list list option"
  tokens_tensor :: "nat list option"
  morph_tags_tensor :: "matrix option"
  lemma_tags_tensor :: "nat list option"
  context_emb :: "nat list list option"
  model_name :: "string option"

definition Document_init :: Document where
  "Document_init =
     \<lparr>sent_id = None, doc_text = None, tree = Tree_init, chars_tensor = None,
      tokens_tensor = None, morph_tags_tensor = None, lemma_tags_tensor = None,
      context_emb = None, model_name = None\<rparr>"

subsection \<open>Reading the treebank file\<close>

text \<open>
  The rows that \<^verbatim>\<open>csv.reader(csvfile, delimiter="\t", quotechar=U+2400)\<close> yields for
  a file opened with \<^verbatim>\<open>newline="\n"\<close>, for a text with neither the quote character nor a
  carriage return: a line ends at each line feed, what follows the last line feed is a
  line when it is not empty, an empty line is the row \<^verbatim>\<open>[]\<close> and any other line is
  split at its tabs.
\<close>

definition lines_of :: "string \<Rightarrow> string list" where
  "lines_of txt =
     (let ps = split_on (CHR 0x0A) txt in if last ps = [] then butlast ps else ps)"

definition csv_reader :: "string \<Rightarrow> row list" where
  "csv_reader txt = map (\<lambda>l. if l = [] then [] else split_on (CHR 0x09) l) (lines_of txt)"

text \<open>
  The body of the loop of \<^verbatim>\<open>parse_tree_file\<close> on one row: the documents appended to
  \<^verbatim>\<open>self.docs\<close> so far and \<^verbatim>\<open>cur_doc\<close> are the state. \<^verbatim>\<open>row[0][12:]\<close> is
  \<^term>\<open>drop 12 (row ! 0)\<close>.
\<close>

definition parse_row :: "Document list \<times> Document \<Rightarrow> row \<Rightarrow> error + Document list \<times> Document" where
  "parse_row st row =
     (case st of (ds, cur_doc) \<Rightarrow>
        if length row = 0 then Inr (ds @ [cur_doc], Document_init)
        else if contains ''# sent_id = '' (row ! 0)
          then Inr (ds, cur_doc\<lparr>sent_id := Some (drop 12 (row ! 0))\<rparr>)
        else if contains ''# text = '' (row ! 0)
          then Inr (ds, cur_doc\<lparr>doc_text := Some (drop 9 (row ! 0))\<rparr>)
        else if length row > 1 then
          (if CHR ''.'' \<in> set (row ! 0) then Inr (ds, cur_doc)
           else (case Tree_add (tree cur_doc) row of
                   Inl e \<Rightarrow> Inl e
                 | Inr t \<Rightarrow> Inr (ds, cur_doc\<lparr>tree := t\<rparr>)))
        else Inr (ds, cur_doc))"

text \<open>
  The loop over the rows. An exception leaves \<^verbatim>\<open>self.docs\<close> with the documents appended
  before it.
\<close>

fun scan_rows :: "Document list \<times> Document \<Rightarrow> row list \<Rightarrow> (Document list \<times> Document) outcome" where
  "scan_rows st [] = (st, None)"
| "scan_rows st (row # rs) =
     (case parse_row st row of
        Inl e \<Rightarrow> (st, Some e)
      | Inr st' \<Rightarrow> scan_rows st' rs)"


subsection \<open>Counters, sorting, vocabularies\<close>

text \<open>
  A \<^verbatim>\<open>Counter\<close> (a \<^verbatim>\<open>dict\<close>) keeps its keys in the order of their first insertion:
  an association list. \<^verbatim>\<open>counter[k] += 1\<close>:
\<close>

fun counter_incr :: "('k \<times> nat) list \<Rightarrow> 'k \<Rightarrow> ('k \<times> nat) list" where
  "counter_incr [] k = [(k, 1)]"
| "counter_incr ((k', n) # kvs) k =
     (if k' = k then (k', n + 1) # kvs else (k', n) # counter_incr kvs k)"

text \<open>
  \<^verbatim>\<open>sorted(xs, key=key, reverse=True)\<close>: descending keys; the sort is stable, and with
  \<^verbatim>\<open>reverse=True\<close> elements of equal key still keep the order they have in \<open>xs\<close>.
\<close>

definition sorted_reverse :: "('a \<Rightarrow> nat) \<Rightarrow> 'a list \<Rightarrow> 'a list" where
  "sorted_reverse key xs = sort_key (\<lambda>x. - int (key x)) xs"

text \<open>\<^verbatim>\<open>enumerate(xs)\<close>, with the index in second place.\<close>

definition enumerate_snd :: "'a list \<Rightarrow> ('a \<times> nat) list" where
  "enumerate_snd xs = zip xs [0..<length xs]"

text \<open>Running a fallible function over a list, in order, up to the first exception.\<close>

fun map_raise :: "('a \<Rightarrow> error + 'b) \<Rightarrow> 'a list \<Rightarrow> error + 'b list" where
  "map_raise f [] = Inr []"
| "map_raise f (x # xs) =
     (case f x of
        Inl e \<Rightarrow> Inl e
      | Inr y \<Rightarrow> (case map_raise f xs of Inl e \<Rightarrow> Inl e | Inr ys \<Rightarrow> Inr (y # ys)))"

text \<open>
  A \<^verbatim>\<open>torchtext\<close> vocabulary: the list of its entries, an entry's index being its
  position, and the default index.
\<close>

record Vocab =
  itos :: "string list"
  default_index :: "nat option"

fun index_of :: "'a list \<Rightarrow> 'a \<Rightarrow> nat option" where
  "index_of [] x = None"
| "index_of (y # ys) x = (if y = x then Some 0 else map_option Suc (index_of ys x))"

text \<open>\<^verbatim>\<open>vocab[token]\<close>: without a default index an unknown token raises.\<close>

definition Vocab_getitem :: "Vocab \<Rightarrow> string \<Rightarrow> error + nat" where
  "Vocab_getitem v tok =
     (case index_of (itos v) tok of
        Some i \<Rightarrow> Inr i
      | None \<Rightarrow> (case default_index v of Some i \<Rightarrow> Inr i | None \<Rightarrow> Inl TorchError))"

definition lookup_indices :: "Vocab \<Rightarrow> string list \<Rightarrow> error + nat list" where
  "lookup_indices v toks = map_raise (Vocab_getitem v) toks"

text \<open>
  \<^verbatim>\<open>build_vocab_from_iterator(iterator, specials=specials, special_first=True)\<close> of
  \<^verbatim>\<open>torchtext\<close>: the tokens are counted, the specials are taken out of the count, the
  rest is sorted by token and then, stably, by descending count; the specials come first.
  The vocabulary refuses a list of entries in which a token occurs twice, which is the case
  when a special occurs twice.
\<close>

definition build_vocab_from_iterator :: "string list list \<Rightarrow> string list \<Rightarrow> error + Vocab" where
  "build_vocab_from_iterator iterator specials =
     (let counter = foldl counter_incr [] (concat iterator);
          counted = filter (\<lambda>kv. fst kv \<notin> set specials) counter;
          sorted_by_freq_tuples = sorted_reverse snd (sort_key fst counted);
          entries = specials @ map fst sorted_by_freq_tuples
      in if distinct entries then Inr \<lparr>itos = entries, default_index = None\<rparr>
         else Inl TorchError)"

subsection \<open>DocumentCorpus\<close>

text \<open>
  The vocabularies and the script tables are attributes that exist once their pass has
  run. \<^verbatim>\<open>morph_tag_vocab\<close>, \<^verbatim>\<open>script_counter\<close> and \<^verbatim>\<open>script_to_id\<close> are dicts, kept
  in insertion order. (\<^verbatim>\<open>script_examples\<close>, which only the overview table reads, is left
  out.)
\<close>

record DocumentCorpus =
  docs :: "Document list"
  unk_token :: string
  pad_token :: string
  token_vocab :: "Vocab option"
  char_vocab :: "Vocab option"
  morph_tag_vocab :: "(string \<times> nat) list option"
  script_counter :: "(string \<times> nat) list option"
  script_to_id :: "(string \<times> nat) list option"
  id_to_script :: "string list option"

definition DocumentCorpus_init :: DocumentCorpus where
  "DocumentCorpus_init =
     \<lparr>docs = [], unk_token = ''<UNK>'', pad_token = ''<PAD>'', token_vocab = None,
      char_vocab = None, morph_tag_vocab = None, script_counter = None,
      script_to_id = None, id_to_script = None\<rparr>"

definition clear_docs :: "DocumentCorpus \<Rightarrow> DocumentCorpus" where
  "clear_docs c = c\<lparr>docs := []\<rparr>"

text \<open>The three comprehensions of \<^verbatim>\<open>_get_vocabs\<close> over the documents.\<close>

definition all_tokens :: "Document list \<Rightarrow> string list list" where
  "all_tokens ds = map (\<lambda>d. tokens (tree d)) ds"

definition all_chars :: "Document list \<Rightarrow> string list list" where
  "all_chars ds = concat (map (\<lambda>d. map (\<lambda>t. map (\<lambda>c. [c]) t) (tokens (tree d))) ds)"

definition all_tags :: "Document list \<Rightarrow> string list" where
  "all_tags ds = concat (concat (map (\<lambda>d. morph_tags (tree d)) ds))"

text \<open>\<^verbatim>\<open>{k: v for v, k in enumerate(sorted({tag ...}))}\<close>\<close>

definition build_morph_tag_vocab :: "Document list \<Rightarrow> (string \<times> nat) list" where
  "build_morph_tag_vocab ds = enumerate_snd (sort (remdups (all_tags ds)))"

text \<open>
  \<^verbatim>\<open>_get_vocabs\<close>. The default index of both vocabularies is
  \<^verbatim>\<open>self.token_vocab[self.unk_token]\<close>; the assignments made before an exception stay.
\<close>

definition get_vocabs :: "DocumentCorpus \<Rightarrow> DocumentCorpus outcome" where
  "get_vocabs c =
     (let specials = [unk_token c, pad_token c]
      in case build_vocab_from_iterator (all_tokens (docs c)) specials of
           Inl e \<Rightarrow> (c, Some e)
         | Inr tv \<Rightarrow>
            (let c1 = c\<lparr>token_vocab := Some tv\<rparr>
             in case Vocab_getitem tv (unk_token c) of
                  Inl e \<Rightarrow> (c1, Some e)
                | Inr i \<Rightarrow>
                   (let tv' = tv\<lparr>default_index := Some i\<rparr>;
                        c2 = c1\<lparr>token_vocab := Some tv'\<rparr>
                    in case build_vocab_from_iterator (all_chars (docs c)) specials of
                         Inl e \<Rightarrow> (c2, Some e)
                       | Inr cv \<Rightarrow>
                          (let c3 = c2\<lparr>char_vocab := Some cv\<rparr>
                           in case Vocab_getitem tv' (unk_token c) of
                                Inl e \<Rightarrow> (c3, Some e)
                              | Inr j \<Rightarrow>
                                 (c3\<lparr>char_vocab := Some (cv\<lparr>default_index := Some j\<rparr>),
                                     morph_tag_vocab :=
                                       Some (build_morph_tag_vocab (docs c))\<rparr>, None)))))"

subsection \<open>Tensors\<close>

text \<open>
  \<^verbatim>\<open>F.one_hot(torch.tensor(idxs), num_classes)\<close>: one row for each index, with a 1 in the
  column of the index; an index that is not below \<open>num_classes\<close> is refused, and so is
  an empty tensor when \<open>num_classes\<close> is 0.
\<close>

definition one_hot :: "nat list \<Rightarrow> nat \<Rightarrow> error + matrix" where
  "one_hot idxs num_classes =
     (if idxs = [] then
        (if num_classes = 0 then Inl TorchError else Inr \<lparr>ncols = num_classes, rows = []\<rparr>)
      else if \<exists>i \<in> set idxs. num_classes \<le> i then Inl TorchError
      else Inr \<lparr>ncols = num_classes,
                rows = map (\<lambda>i. map (\<lambda>j. if j = i then 1 else 0) [0..<num_classes]) idxs\<rparr>)"

text \<open>The slice \<^verbatim>\<open>m[:, :-1]\<close>: every column but the last.\<close>

definition drop_last_column :: "matrix \<Rightarrow> matrix" where
  "drop_last_column m = \<lparr>ncols = ncols m - 1, rows = map butlast (rows m)\<rparr>"

text \<open>
  \<^verbatim>\<open>torch.cat(ms)\<close> along the rows: an empty list of tensors is refused, and so are
  tensors that differ in their number of columns.
\<close>

definition torch_cat :: "matrix list \<Rightarrow> error + matrix" where
  "torch_cat ms =
     (case ms of
        [] \<Rightarrow> Inl TorchError
      | m # ms' \<Rightarrow>
          if \<forall>m' \<in> set ms'. ncols m' = ncols m
          then Inr \<lparr>ncols = ncols m, rows = concat (map rows (m # ms'))\<rparr>
          else Inl TorchError)"

text \<open>
  The tensor of one tag set in \<^verbatim>\<open>_move_to_pt\<close>. \<^verbatim>\<open>morph_tag_vocab.get(tag, '_')\<close> is
  the string \<^verbatim>\<open>'_'\<close> for a tag that is not a key, and \<^verbatim>\<open>torch.tensor\<close> refuses a
  string.
\<close>

definition tagset_tensor :: "(string \<times> nat) list option \<Rightarrow> string list \<Rightarrow> error + matrix" where
  "tagset_tensor mtv tagset =
     (case mtv of
        None \<Rightarrow> Inl UnbuiltVocabularyError
      | Some v \<Rightarrow>
         (case map_raise (\<lambda>tag. case map_of v tag of None \<Rightarrow> Inl TorchError | Some i \<Rightarrow> Inr i) tagset of
            Inl e \<Rightarrow> Inl e
          | Inr idxs \<Rightarrow>
             (case one_hot idxs (length v) of
                Inl e \<Rightarrow> Inl e
              | Inr m \<Rightarrow> Inr (drop_last_column m))))"

definition doc_morph_tags_tensor :: "(string \<times> nat) list option \<Rightarrow> Document \<Rightarrow> error + matrix" where
  "doc_morph_tags_tensor mtv d =
     (case map_raise (tagset_tensor mtv) (morph_tags (tree d)) of
        Inl e \<Rightarrow> Inl e
      | Inr ms \<Rightarrow> torch_cat ms)"

definition doc_chars_tensor :: "Vocab option \<Rightarrow> Document \<Rightarrow> error + nat list list" where
  "doc_chars_tensor cv d =
     map_raise (\<lambda>t. case cv of
                       None \<Rightarrow> Inl UnbuiltVocabularyError
                     | Some v \<Rightarrow> lookup_indices v (map (\<lambda>c. [c]) t))
       (tokens (tree d))"

definition doc_tokens_tensor :: "Vocab option \<Rightarrow> Document \<Rightarrow> error + nat list" where
  "doc_tokens_tensor tv d =
     (case tv of
        None \<Rightarrow> Inl UnbuiltVocabularyError
      | Some v \<Rightarrow> lookup_indices v (tokens (tree d)))"

text \<open>The body of the loop of \<^verbatim>\<open>_move_to_pt\<close> on one document.\<close>

definition move_doc :: "DocumentCorpus \<Rightarrow> Document \<Rightarrow> error + Document" where
  "move_doc c d =
     (case doc_chars_tensor (char_vocab c) d of
        Inl e \<Rightarrow> Inl e
      | Inr cs \<Rightarrow>
         (case doc_tokens_tensor (token_vocab c) d of
            Inl e \<Rightarrow> Inl e
          | Inr ts \<Rightarrow>
             (case doc_morph_tags_tensor (morph_tag_vocab c) d of
                Inl e \<Rightarrow> Inl e
              | Inr m \<Rightarrow>
                 Inr (d\<lparr>chars_tensor := Some cs, tokens_tensor := Some ts,
                        morph_tags_tensor := Some m\<rparr>))))"

text \<open>
  A loop that updates the documents one after the other and stops at the first exception:
  the documents before it are updated, the others are as they were.
\<close>

fun update_docs :: "(Document \<Rightarrow> error + Document) \<Rightarrow> Document list \<Rightarrow> Document list outcome" where
  "update_docs f [] = ([], None)"
| "update_docs f (d # ds) =
     (case f d of
        Inl e \<Rightarrow> (d # ds, Some e)
      | Inr d' \<Rightarrow> (case update_docs f ds of (ds', r) \<Rightarrow> (d' # ds', r)))"

definition move_to_pt :: "DocumentCorpus \<Rightarrow> DocumentCorpus outcome" where
  "move_to_pt c = (case update_docs (move_doc c) (docs c) of (ds, r) \<Rightarrow> (c\<lparr>docs := ds\<rparr>, r))"

subsection \<open>parse_tree_file\<close>

text \<open>
  \<^verbatim>\<open>parse_tree_file\<close> on the rows of the file: the scan, the append of the document in
  progress, \<^verbatim>\<open>_get_vocabs\<close> and \<^verbatim>\<open>_move_to_pt\<close>.
\<close>

definition parse_rows :: "DocumentCorpus \<Rightarrow> row list \<Rightarrow> DocumentCorpus outcome" where
  "parse_rows c rs =
     (case scan_rows (docs c, Document_init) rs of
        ((ds, cur_doc), Some e) \<Rightarrow> (c\<lparr>docs := ds\<rparr>, Some e)
      | ((ds, cur_doc), None) \<Rightarrow>
          (case get_vocabs (c\<lparr>docs := ds @ [cur_doc]\<rparr>) of
             (c', Some e) \<Rightarrow> (c', Some e)
           | (c', None) \<Rightarrow> move_to_pt c'))"

definition parse_tree_file :: "DocumentCorpus \<Rightarrow> string \<Rightarrow> DocumentCorpus outcome" where
  "parse_tree_file c txt = parse_rows c (csv_reader txt)"


subsection \<open>set_lemma_tags\<close>

text \<open>
  \<^verbatim>\<open>LemmaScriptGenerator(wf, lm).get_lemma_script()\<close> lives in a module of its own: the
  pass takes it as the function \<open>gen\<close> from a word form and a lemma to the script.

  First pass, the inner loop over \<^verbatim>\<open>zip(d.tokens, d.lemmas)\<close>: the state is the counter
  and \<^verbatim>\<open>doc_scripts\<close>.
\<close>

fun count_doc_scripts ::
  "(string \<Rightarrow> string \<Rightarrow> string) \<Rightarrow> (string \<times> nat) list \<times> string list \<Rightarrow> (string \<times> string) list \<Rightarrow>
     (string \<times> nat) list \<times> string list" where
  "count_doc_scripts gen (counter, doc_scripts) [] = (counter, doc_scripts)"
| "count_doc_scripts gen (counter, doc_scripts) ((wform, lm) # ps) =
     (let lemma_script = gen wform lm
      in count_doc_scripts gen (counter_incr counter lemma_script, doc_scripts @ [lemma_script]) ps)"

text \<open>The outer loop over the documents: the state is the counter and \<^verbatim>\<open>docs_scripts\<close>.\<close>

fun count_scripts ::
  "(string \<Rightarrow> string \<Rightarrow> string) \<Rightarrow> (string \<times> nat) list \<times> string list list \<Rightarrow> Document list \<Rightarrow>
     (string \<times> nat) list \<times> string list list" where
  "count_scripts gen (counter, docs_scripts) [] = (counter, docs_scripts)"
| "count_scripts gen (counter, docs_scripts) (d # ds) =
     (case count_doc_scripts gen (counter, []) (zip (tokens (tree d)) (lemmata (tree d))) of
        (counter', doc_scripts) \<Rightarrow>
          count_scripts gen (counter', docs_scripts @ [doc_scripts]) ds)"

text \<open>
  \<^verbatim>\<open>{k: i for i, (k, _) in enumerate(sorted(counter.items(), key=lambda x: x[1],
  reverse=True))}\<close>
\<close>

definition rank_scripts :: "(string \<times> nat) list \<Rightarrow> (string \<times> nat) list" where
  "rank_scripts counter = enumerate_snd (map fst (sorted_reverse snd counter))"

text \<open>\<^verbatim>\<open>[self.script_to_id[script] for script in doc_scripts]\<close>\<close>

definition script_ids :: "(string \<times> nat) list \<Rightarrow> string list \<Rightarrow> error + nat list" where
  "script_ids s2i doc_scripts =
     map_raise (\<lambda>script. case map_of s2i script of None \<Rightarrow> Inl KeyError | Some i \<Rightarrow> Inr i)
       doc_scripts"

text \<open>
  The last loop, over \<^verbatim>\<open>enumerate(docs_scripts)\<close>: \<^verbatim>\<open>self.docs[i]\<close> is the document
  at the same position.
\<close>

fun label_docs :: "(string \<times> nat) list \<Rightarrow> Document list \<Rightarrow> string list list \<Rightarrow> Document list outcome" where
  "label_docs s2i ds [] = (ds, None)"
| "label_docs s2i [] (doc_scripts # rest) = ([], Some IndexError)"
| "label_docs s2i (d # ds) (doc_scripts # rest) =
     (case script_ids s2i doc_scripts of
        Inl e \<Rightarrow> (d # ds, Some e)
      | Inr ids \<Rightarrow>
          (case label_docs s2i ds rest of
             (ds', r) \<Rightarrow> (d\<lparr>lemma_tags_tensor := Some ids\<rparr> # ds', r)))"

definition set_lemma_tags :: "(string \<Rightarrow> string \<Rightarrow> string) \<Rightarrow> DocumentCorpus \<Rightarrow> DocumentCorpus outcome" where
  "set_lemma_tags gen c =
     (case count_scripts gen ([], []) (docs c) of
        (counter, docs_scripts) \<Rightarrow>
          (let s2i = rank_scripts counter;
               c' = c\<lparr>script_counter := Some counter, script_to_id := Some s2i,
                      id_to_script := Some (map fst s2i)\<rparr>
           in case label_docs s2i (docs c) docs_scripts of
                (ds, r) \<Rightarrow> (c'\<lparr>docs := ds\<rparr>, r)))"

subsection \<open>add_context_embs\<close>

text \<open>
  \<^verbatim>\<open>re.search(re.escape(t), s)\<close>: the start of the leftmost occurrence of the literal
  \<open>t\<close> in \<open>s\<close>, or \<^verbatim>\<open>None\<close>; the match ends \<open>length t\<close> later.
\<close>

fun re_search :: "string \<Rightarrow> string \<Rightarrow> nat option" where
  "re_search t [] = (if t = [] then Some 0 else None)"
| "re_search t (h # hay) =
     (if startswith (h # hay) t then Some 0 else map_option Suc (re_search t hay))"

text \<open>
  The loop that finds the token spans: the state is \<^verbatim>\<open>end\<close> and \<^verbatim>\<open>spans\<close>.
  \<^verbatim>\<open>match.span()\<close> on \<^verbatim>\<open>None\<close> raises.
\<close>

fun find_spans :: "string \<Rightarrow> nat \<times> (nat \<times> nat) list \<Rightarrow> string list \<Rightarrow> error + nat \<times> (nat \<times> nat) list" where
  "find_spans txt (end, spans) [] = Inr (end, spans)"
| "find_spans txt (end, spans) (t # ts) =
     (case re_search t (drop end txt) of
        None \<Rightarrow> Inl AlignmentError
      | Some start \<Rightarrow>
          find_spans txt (end + (start + length t),
                          spans @ [(start + end, start + length t + end)]) ts)"

text \<open>
  \<^verbatim>\<open>correspondence[index].append(i)\<close> on a \<^verbatim>\<open>defaultdict(list)\<close>: a key that is not
  there yet is inserted, last, with the empty list.
\<close>

fun dd_append :: "(nat \<times> nat list) list \<Rightarrow> nat \<Rightarrow> nat \<Rightarrow> (nat \<times> nat list) list" where
  "dd_append [] k i = [(k, [i])]"
| "dd_append ((k', b) # kbs) k i =
     (if k' = k then (k', b @ [i]) # kbs else (k', b) # dd_append kbs k i)"

text \<open>
  The loop over \<^verbatim>\<open>enumerate(offset_mapping[1:-1])\<close>: the state is \<^verbatim>\<open>index\<close> and
  \<^verbatim>\<open>correspondence\<close>. \<^verbatim>\<open>spans[index]\<close> raises when the spans are used up.
\<close>

fun correspond ::
  "(nat \<times> nat) list \<Rightarrow> nat \<times> (nat \<times> nat list) list \<Rightarrow> (nat \<times> nat \<times> nat) list \<Rightarrow>
     error + nat \<times> (nat \<times> nat list) list" where
  "correspond spans (index, correspondence) [] = Inr (index, correspondence)"
| "correspond spans (index, correspondence) ((i, tokenized_start, tokenized_end) # rest) =
     (let correspondence' = dd_append correspondence index i
      in if index < length spans then
           correspond spans
             (if tokenized_end = snd (spans ! index) then index + 1 else index, correspondence')
             rest
         else Inl IndexError)"

text \<open>\<^verbatim>\<open>enumerate(xs)\<close>, and the slice \<^verbatim>\<open>xs[1:-1]\<close>.\<close>

definition enumerate :: "'a list \<Rightarrow> (nat \<times> 'a) list" where
  "enumerate xs = zip [0..<length xs] xs"

definition inner_slice :: "'a list \<Rightarrow> 'a list" where
  "inner_slice xs = butlast (tl xs)"

text \<open>
  \<^verbatim>\<open>contextual_embeddings[idxs]\<close> on the matrix of the hidden states, which has \<open>n\<close>
  rows: the rows at the positions \<open>idxs\<close>, a position that is not below \<open>n\<close> being
  refused.
\<close>

definition index_select :: "nat \<Rightarrow> nat list \<Rightarrow> error + nat list" where
  "index_select n idxs = (if \<forall>i \<in> set idxs. i < n then Inr idxs else Inl IndexError)"

text \<open>
  The body of the loop of \<^verbatim>\<open>add_context_embs\<close> on one document. The tokenizer is the
  function \<open>tokenizer\<close> from the text to its \<^verbatim>\<open>offset_mapping\<close>, the first and the last
  entry being those of the structural tokens; a text that is \<^verbatim>\<open>None\<close> is refused. The
  encoder gives one hidden state for each entry of the \<^verbatim>\<open>offset_mapping\<close> of the same
  text; for each key of the correspondence, in order, the entries of its bucket select
  the hidden states that are averaged into one row, and \<^verbatim>\<open>torch.stack\<close> refuses an empty
  list of rows.
\<close>

definition align_doc :: "(string \<Rightarrow> (nat \<times> nat) list) \<Rightarrow> string \<Rightarrow> Document \<Rightarrow> error + Document" where
  "align_doc tokenizer name d =
     (case doc_text d of
        None \<Rightarrow> Inl TypeError
      | Some txt \<Rightarrow>
         (let offset_mapping = tokenizer txt
          in case find_spans txt (0, []) (tokens (tree d)) of
               Inl e \<Rightarrow> Inl e
             | Inr (end, spans) \<Rightarrow>
                (case correspond spans (0, []) (enumerate (inner_slice offset_mapping)) of
                   Inl e \<Rightarrow> Inl e
                 | Inr (index, correspondence) \<Rightarrow>
                    (case map_raise (\<lambda>kb. index_select (length offset_mapping) (snd kb))
                            correspondence of
                       Inl e \<Rightarrow> Inl e
                     | Inr pooled \<Rightarrow>
                         if pooled = [] then Inl TorchError
                         else Inr (d\<lparr>context_emb := Some pooled,
                                     model_name := Some name\<rparr>)))))"

definition add_context_embs ::
  "(string \<Rightarrow> (nat \<times> nat) list) \<Rightarrow> string \<Rightarrow> DocumentCorpus \<Rightarrow> DocumentCorpus outcome" where
  "add_context_embs tokenizer name c =
     (case update_docs (align_doc tokenizer name) (docs c) of (ds, r) \<Rightarrow> (c\<lparr>docs := ds\<rparr>, r))"


subsection \<open>Predicates of the statements\<close>

text \<open>
  A token row: a row that reaches \<^verbatim>\<open>cur_doc.tree.add(row)\<close>, that is, one with more than
  one field whose first field holds neither comment marker and no full stop.
\<close>

definition is_token_row :: "row \<Rightarrow> bool" where
  "is_token_row row =
     (length row > 1 \<and> \<not> contains ''# sent_id = '' (row ! 0) \<and>
      \<not> contains ''# text = '' (row ! 0) \<and> CHR ''.'' \<notin> set (row ! 0))"

text \<open>The four parallel lists of a tree have one length.\<close>

definition tree_inv :: "Tree \<Rightarrow> bool" where
  "tree_inv t =
     (length (raw t) = length (tokens t) \<and> length (tokens t) = length (lemmata t) \<and>
      length (lemmata t) = length (morph_tags t))"

text \<open>The entry of \<^verbatim>\<open>raw\<close> that a row of ten fields adds.\<close>

definition row_entry :: "row \<Rightarrow> string \<times> string \<times> string" where
  "row_entry row = (row ! 1, row ! 2, row ! 5)"

text \<open>A document as \<^verbatim>\<open>Document()\<close> makes it: no tokens, no identifier, no text.\<close>

definition is_empty_doc :: "Document \<Rightarrow> bool" where
  "is_empty_doc d = (sent_id d = None \<and> doc_text d = None \<and> tree d = Tree_init)"

text \<open>The lists of a tree are the columns of \<^verbatim>\<open>raw\<close>, row by row.\<close>

definition tree_parallel :: "Tree \<Rightarrow> bool" where
  "tree_parallel t =
     (tokens t = map fst (raw t) \<and> lemmata t = map (\<lambda>e. fst (snd e)) (raw t) \<and>
      morph_tags t = map (\<lambda>e. split_on (CHR '';'') (snd (snd e))) (raw t))"

text \<open>The number of blank lines among the rows.\<close>

definition blank_rows :: "row list \<Rightarrow> nat" where
  "blank_rows rs = length (filter (\<lambda>row. row = []) rs)"

text \<open>The scripts of the tokens of a document, in token order.\<close>

definition scripts_of :: "(string \<Rightarrow> string \<Rightarrow> string) \<Rightarrow> Document \<Rightarrow> string list" where
  "scripts_of gen d = map (\<lambda>(wform, lm). gen wform lm) (zip (tokens (tree d)) (lemmata (tree d)))"

text \<open>
  The state of the correspondence loop: the keys are \<open>0, 1, \<dots>\<close> in order, the index is
  the last key or the one after it, and no bucket is empty.
\<close>

definition buckets_ok :: "nat \<times> (nat \<times> nat list) list \<Rightarrow> bool" where
  "buckets_ok st =
     (case st of (index, correspondence) \<Rightarrow>
        map fst correspondence = [0..<length correspondence] \<and>
        index \<le> length correspondence \<and> length correspondence \<le> index + 1 \<and>
        (\<forall>b \<in> set (map snd correspondence). b \<noteq> []))"

text \<open>
  The row of a tag entry in the tensor of the morphological tags: a 1 in the column of the
  id of the tag; the last id of the vocabulary has no column.
\<close>

definition tag_row :: "(string \<times> nat) list \<Rightarrow> string \<Rightarrow> nat list" where
  "tag_row v tag = map (\<lambda>j. if map_of v tag = Some j then 1 else 0) [0..<length v - 1]"

text \<open>The two-sentence input of the example scenario of the specification.\<close>

definition example_text :: string where
  "example_text =
     ''1'' @ [CHR 0x09] @ ''dog'' @ [CHR 0x09] @ ''dog'' @ [CHR 0x09] @ ''_'' @ [CHR 0x09] @ ''_'' @ [CHR 0x09] @ ''_'' @ [CHR 0x09] @ ''_'' @ [CHR 0x09] @ ''_'' @ [CHR 0x09] @ ''_'' @ [CHR 0x09] @ ''_'' @ [CHR 0x0A, CHR 0x0A] @
     ''1'' @ [CHR 0x09] @ ''dogs'' @ [CHR 0x09] @ ''dog'' @ [CHR 0x09] @ ''_'' @ [CHR 0x09] @ ''_'' @ [CHR 0x09] @ ''Number=Plur'' @ [CHR 0x09] @ ''_'' @ [CHR 0x09] @ ''_'' @ [CHR 0x09] @ ''_'' @ [CHR 0x09] @ ''_'' @ [CHR 0x0A]"

section \<open>Properties\<close>

subsection \<open>The scan of the rows\<close>

lemma Tree_add_eq:
  "Tree_add t row =
     (if length row = 10
      then Inr (t\<lparr>raw := raw t @ [row_entry row],
                  tokens := tokens t @ [row ! 1],
                  lemmata := lemmata t @ [row ! 2],
                  morph_tags := morph_tags t @ [split_on (CHR '';'') (row ! 5)]\<rparr>)
      else Inl FormatError)"
  by (cases "(t, row)" rule: Tree_add.cases) (simp_all add: row_entry_def)

lemma parse_row_blank: "parse_row (ds, cur) [] = Inr (ds @ [cur], Document_init)"
  by (simp add: parse_row_def)

lemma parse_row_token:
  "is_token_row row \<Longrightarrow>
   parse_row (ds, cur) row =
     (case Tree_add (tree cur) row of Inl e \<Rightarrow> Inl e | Inr t \<Rightarrow> Inr (ds, cur\<lparr>tree := t\<rparr>))"
  by (auto simp: parse_row_def is_token_row_def)

lemma parse_row_other:
  "row \<noteq> [] \<Longrightarrow> \<not> is_token_row row \<Longrightarrow>
   \<exists>cur'. parse_row (ds, cur) row = Inr (ds, cur') \<and> tree cur' = tree cur"
  by (auto simp: parse_row_def is_token_row_def)

lemma parse_row_Inl:
  "parse_row st row = Inl e \<Longrightarrow> e = FormatError \<and> is_token_row row \<and> length row \<noteq> 10"
  by (cases st) (auto simp: parse_row_def is_token_row_def Tree_add_eq split: if_splits)

lemma parse_row_docs:
  "parse_row (ds, cur) row = Inr (ds', cur') \<Longrightarrow> \<exists>new. ds' = ds @ new"
  by (auto simp: parse_row_def Tree_add_eq split: if_splits)

lemma scan_rows_docs:
  "scan_rows (ds, cur) rs = ((ds', cur'), r) \<Longrightarrow> \<exists>new. ds' = ds @ new"
proof (induction rs arbitrary: ds cur)
  case Nil
  then show ?case by simp
next
  case (Cons row rs)
  show ?case
  proof (cases "parse_row (ds, cur) row")
    case (Inl e)
    with Cons.prems show ?thesis by simp
  next
    case (Inr st')
    obtain ds1 cur1 where st': "st' = (ds1, cur1)" by (cases st')
    from Inr st' parse_row_docs obtain new1 where "ds1 = ds @ new1" by blast
    moreover from Cons.prems Inr st' have "scan_rows (ds1, cur1) rs = ((ds', cur'), r)" by simp
    from Cons.IH [OF this] obtain new2 where "ds' = ds1 @ new2" by blast
    ultimately show ?thesis by simp
  qed
qed

lemma scan_rows_FormatError:
  "row \<in> set rs \<Longrightarrow> is_token_row row \<Longrightarrow> length row \<noteq> 10 \<Longrightarrow>
   snd (scan_rows st rs) = Some FormatError"
proof (induction rs arbitrary: st)
  case Nil
  then show ?case by simp
next
  case (Cons r rs)
  show ?case
  proof (cases "parse_row st r")
    case (Inl e)
    then show ?thesis using parse_row_Inl [OF Inl] by simp
  next
    case (Inr st')
    have "r \<noteq> row"
    proof
      assume "r = row"
      with Cons.prems Inr show False
        by (cases st) (simp add: parse_row_token Tree_add_eq) 
    qed
    with Cons.prems have "row \<in> set rs" by simp
    from Cons.IH [OF this Cons.prems(2,3)] Inr show ?thesis by simp
  qed
qed

text \<open>
  Claim C3. A token row (more than one field, a first field with neither comment marker
  and no full stop) that does not have exactly ten fields makes the parse fail with a
  FormatError: the call stops at the scan, with the documents appended so far in
  \<^verbatim>\<open>self.docs\<close> and nothing else of the corpus changed.
\<close>

theorem malformed_token_row_FormatError:
  assumes "row \<in> set rs" and "is_token_row row" and "length row \<noteq> 10"
  shows "\<exists>new. parse_rows c rs = (c\<lparr>docs := docs c @ new\<rparr>, Some FormatError)"
proof -
  obtain ds cur r where sc: "scan_rows (docs c, Document_init) rs = ((ds, cur), r)"
    by (metis surj_pair)
  from scan_rows_FormatError [OF assms, of "(docs c, Document_init)"] sc
  have r: "r = Some FormatError" by simp
  from scan_rows_docs [OF sc] obtain new where "ds = docs c @ new" by blast
  with sc r show ?thesis by (auto simp: parse_rows_def)
qed

theorem malformed_token_row_FormatError_witness:
  "[''1'', ''dog''] \<in> set [[''#''], [''1'', ''dog'']] \<and> is_token_row [''1'', ''dog''] \<and>
   length [''1'', ''dog''] \<noteq> 10 \<and>
   (\<exists>new. parse_rows DocumentCorpus_init [[''#''], [''1'', ''dog'']] =
      (DocumentCorpus_init\<lparr>docs := docs DocumentCorpus_init @ new\<rparr>, Some FormatError))"
proof -
  have a: "[''1'', ''dog''] \<in> set [[''#''], [''1'', ''dog'']]" by simp
  have b: "is_token_row [''1'', ''dog'']" by (simp add: is_token_row_def)
  have c: "length [''1'', ''dog''] \<noteq> 10" by simp
  from malformed_token_row_FormatError [OF a b c, of DocumentCorpus_init] a b c
  show ?thesis by blast
qed

lemma tree_parallel_inv: "tree_parallel t \<Longrightarrow> tree_inv t"
  by (simp add: tree_parallel_def tree_inv_def)

lemma Tree_add_parallel: "Tree_add t row = Inr t' \<Longrightarrow> tree_parallel t \<Longrightarrow> tree_parallel t'"
  by (auto simp: Tree_add_eq tree_parallel_def row_entry_def split: if_splits)

lemma Tree_add_inv: "Tree_add t row = Inr t' \<Longrightarrow> tree_inv t \<Longrightarrow> tree_inv t'"
  by (auto simp: Tree_add_eq tree_inv_def split: if_splits)

lemma Tree_add_raw: "Tree_add t row = Inr t' \<Longrightarrow> raw t' = raw t @ [row_entry row]"
  by (auto simp: Tree_add_eq split: if_splits)

lemma parse_row_cases:
  assumes "parse_row (ds, cur) row = Inr (ds', cur')"
  shows "(row = [] \<and> ds' = ds @ [cur] \<and> cur' = Document_init) \<or>
         (row \<noteq> [] \<and> \<not> is_token_row row \<and> ds' = ds \<and> tree cur' = tree cur) \<or>
         (is_token_row row \<and> ds' = ds \<and> Tree_add (tree cur) row = Inr (tree cur'))"
proof (cases "row = []")
  case True
  with assms show ?thesis by (simp add: parse_row_blank)
next
  case False
  show ?thesis
  proof (cases "is_token_row row")
    case True
    with assms show ?thesis
      by (auto simp: parse_row_token split: sum.splits)
  next
    case nt: False
    from parse_row_other [OF False nt, of ds cur] assms show ?thesis
      using False nt by auto
  qed
qed

lemma Tree_init_parallel: "tree_parallel Tree_init"
  by (simp add: tree_parallel_def Tree_init_def)

lemma Document_init_parallel: "tree_parallel (tree Document_init)"
  by (simp add: Document_init_def Tree_init_parallel)

lemma scan_rows_parallel:
  "scan_rows (ds, cur) rs = ((ds', cur'), r) \<Longrightarrow> tree_parallel (tree cur) \<Longrightarrow>
   \<exists>new. ds' = ds @ new \<and> (\<forall>d \<in> set new. tree_parallel (tree d)) \<and> tree_parallel (tree cur')"
proof (induction rs arbitrary: ds cur)
  case Nil
  then show ?case by simp
next
  case (Cons row rs)
  show ?case
  proof (cases "parse_row (ds, cur) row")
    case (Inl e)
    with Cons.prems show ?thesis by simp
  next
    case (Inr st')
    obtain ds1 cur1 where st': "st' = (ds1, cur1)" by (cases st')
    from Inr st' have pr: "parse_row (ds, cur) row = Inr (ds1, cur1)" by simp
    from parse_row_cases [OF pr] Cons.prems(2)
    have 1: "\<exists>new. ds1 = ds @ new \<and> (\<forall>d \<in> set new. tree_parallel (tree d))"
      and 2: "tree_parallel (tree cur1)"
      by (auto simp: Document_init_parallel dest: Tree_add_parallel)
    from Cons.prems pr have "scan_rows (ds1, cur1) rs = ((ds', cur'), r)" by simp
    from Cons.IH [OF this 2] 1 show ?thesis by auto
  qed
qed

lemma scan_rows_raw:
  "scan_rows (ds, cur) rs = ((ds', cur'), None) \<Longrightarrow>
   concat (map (\<lambda>d. raw (tree d)) (ds' @ [cur'])) =
     concat (map (\<lambda>d. raw (tree d)) (ds @ [cur])) @ map row_entry (filter is_token_row rs)"
proof (induction rs arbitrary: ds cur)
  case Nil
  then show ?case by simp
next
  case (Cons row rs)
  show ?case
  proof (cases "parse_row (ds, cur) row")
    case (Inl e)
    with Cons.prems show ?thesis by simp
  next
    case (Inr st')
    obtain ds1 cur1 where st': "st' = (ds1, cur1)" by (cases st')
    from Inr st' have pr: "parse_row (ds, cur) row = Inr (ds1, cur1)" by simp
    have 1: "concat (map (\<lambda>d. raw (tree d)) (ds1 @ [cur1])) =
       concat (map (\<lambda>d. raw (tree d)) (ds @ [cur])) @ map row_entry (filter is_token_row [row])"
      using parse_row_cases [OF pr]
      by (auto simp: Document_init_def Tree_init_def is_token_row_def dest: Tree_add_raw)
    from Cons.prems pr have "scan_rows (ds1, cur1) rs = ((ds', cur'), None)" by simp
    from Cons.IH [OF this] 1 show ?thesis by simp
  qed
qed

lemma scan_rows_error:
  "scan_rows st rs = (st', Some e) \<Longrightarrow> e = FormatError"
proof (induction rs arbitrary: st)
  case Nil
  then show ?case by simp
next
  case (Cons row rs)
  then show ?case
    by (cases "parse_row st row") (auto dest: parse_row_Inl)
qed

lemma update_docs_map:
  assumes "\<And>d d'. f d = Inr d' \<Longrightarrow> g d' = g d"
  shows "update_docs f ds = (ds', r) \<Longrightarrow> map g ds' = map g ds"
proof (induction ds arbitrary: ds' r)
  case Nil
  then show ?case by simp
next
  case (Cons d ds)
  show ?case
  proof (cases "f d")
    case (Inl e)
    with Cons.prems show ?thesis by auto
  next
    case (Inr d1)
    obtain ds1 r1 where u: "update_docs f ds = (ds1, r1)" by (cases "update_docs f ds")
    from Cons.IH [OF u] Cons.prems Inr u assms [OF Inr] show ?thesis by auto
  qed
qed

lemma get_vocabs_docs: "get_vocabs c = (c', r) \<Longrightarrow> docs c' = docs c"
  by (auto simp: get_vocabs_def Let_def split: sum.splits)

lemma move_doc_fields:
  "move_doc c d = Inr d' \<Longrightarrow> sent_id d' = sent_id d \<and> doc_text d' = doc_text d \<and> tree d' = tree d"
  by (auto simp: move_doc_def split: sum.splits)

lemma move_to_pt_map:
  assumes "\<And>d d'. move_doc c d = Inr d' \<Longrightarrow> g d' = g d"
  shows "move_to_pt c = (c', r) \<Longrightarrow> map g (docs c') = map g (docs c)"
proof -
  assume m: "move_to_pt c = (c', r)"
  obtain ds r1 where u: "update_docs (move_doc c) (docs c) = (ds, r1)"
    by (cases "update_docs (move_doc c) (docs c)")
  from update_docs_map [of "move_doc c" g, OF assms u] m u show ?thesis
    by (auto simp: move_to_pt_def)
qed

text \<open>
  What \<^verbatim>\<open>parse_tree_file\<close> leaves in \<^verbatim>\<open>self.docs\<close>, up to the attributes that the
  tensor pass sets.
\<close>

lemma parse_rows_scan_ok:
  assumes "parse_rows c rs = (c', r)"
    and "scan_rows (docs c, Document_init) rs = ((ds, cur), None)"
    and "\<And>c0 d d'. move_doc c0 d = Inr d' \<Longrightarrow> g d' = g d"
  shows "map g (docs c') = map g (ds @ [cur])"
proof -
  obtain c1 r1 where gv: "get_vocabs (c\<lparr>docs := ds @ [cur]\<rparr>) = (c1, r1)"
    by (cases "get_vocabs (c\<lparr>docs := ds @ [cur]\<rparr>)")
  from get_vocabs_docs [OF gv] have d1: "docs c1 = ds @ [cur]" by simp
  show ?thesis
  proof (cases r1)
    case None
    with assms(1,2) gv have "move_to_pt c1 = (c', r)" by (simp add: parse_rows_def)
    from move_to_pt_map [of c1 g, OF assms(3) this] d1 show ?thesis by simp
  next
    case (Some e)
    with assms(1,2) gv have "c' = c1" by (simp add: parse_rows_def)
    with d1 show ?thesis by simp
  qed
qed

lemma parse_rows_scan_failed:
  assumes "parse_rows c rs = (c', r)"
    and "scan_rows (docs c, Document_init) rs = ((ds, cur), Some e)"
  shows "docs c' = ds \<and> r = Some FormatError"
  using assms scan_rows_error [OF assms(2)] by (auto simp: parse_rows_def)

text \<open>
  Claim C7. The documents that a parse appends have trees whose four lists have one length
  (each list being a column of \<^verbatim>\<open>raw\<close>); \<^verbatim>\<open>Tree.add\<close> keeps the invariant and appends
  at the end of each list; when the scan is not stopped by a malformed row, the entries of
  the trees, in the order of the documents, are those of the token rows of the file, in
  the order of the file: nothing is reordered or removed, and a row whose first field
  holds a full stop adds nothing.
\<close>

theorem tree_rows_invariant:
  assumes "parse_rows c rs = (c', r)"
  shows "(\<exists>new. map tree (docs c') = map tree (docs c) @ new \<and>
            (\<forall>t \<in> set new. tree_inv t \<and> tree_parallel t)) \<and>
         (r \<noteq> Some FormatError \<longrightarrow>
            concat (map (\<lambda>d. raw (tree d)) (docs c')) =
              concat (map (\<lambda>d. raw (tree d)) (docs c)) @ map row_entry (filter is_token_row rs)) \<and>
         (\<forall>t row t'. Tree_add t row = Inr t' \<longrightarrow>
            (tree_inv t \<longrightarrow> tree_inv t') \<and> raw t' = raw t @ [row_entry row] \<and>
            tokens t' = tokens t @ [row ! 1] \<and> lemmata t' = lemmata t @ [row ! 2] \<and>
            morph_tags t' = morph_tags t @ [split_on (CHR '';'') (row ! 5)])"
proof -
  obtain ds cur rr where sc: "scan_rows (docs c, Document_init) rs = ((ds, cur), rr)"
    by (metis surj_pair)
  from scan_rows_parallel [OF sc Document_init_parallel]
  obtain new where new: "ds = docs c @ new" "\<forall>d \<in> set new. tree_parallel (tree d)"
    "tree_parallel (tree cur)" by blast
  have A: "\<exists>new. map tree (docs c') = map tree (docs c) @ new \<and>
            (\<forall>t \<in> set new. tree_inv t \<and> tree_parallel t)"
  proof (cases rr)
    case None
    from parse_rows_scan_ok [of c rs c' r ds cur tree, OF assms] sc None move_doc_fields
    have "map tree (docs c') = map tree (ds @ [cur])" by blast
    with new have "map tree (docs c') = map tree (docs c) @ map tree (new @ [cur])" by simp
    moreover from new have "\<forall>t \<in> set (map tree (new @ [cur])). tree_inv t \<and> tree_parallel t"
      by (auto simp: tree_parallel_inv)
    ultimately show ?thesis by blast
  next
    case (Some e)
    from parse_rows_scan_failed [OF assms] sc Some have "docs c' = ds" by blast
    with new have "map tree (docs c') = map tree (docs c) @ map tree new" by simp
    moreover from new have "\<forall>t \<in> set (map tree new). tree_inv t \<and> tree_parallel t"
      by (auto simp: tree_parallel_inv)
    ultimately show ?thesis by blast
  qed
  have B: "r \<noteq> Some FormatError \<longrightarrow>
            concat (map (\<lambda>d. raw (tree d)) (docs c')) =
              concat (map (\<lambda>d. raw (tree d)) (docs c)) @ map row_entry (filter is_token_row rs)"
  proof (cases rr)
    case None
    from parse_rows_scan_ok [of c rs c' r ds cur "\<lambda>d. raw (tree d)", OF assms] sc None move_doc_fields
    have "map (\<lambda>d. raw (tree d)) (docs c') = map (\<lambda>d. raw (tree d)) (ds @ [cur])" by metis
    with scan_rows_raw [of "docs c" Document_init rs ds cur] sc None show ?thesis
      by (simp add: Document_init_def Tree_init_def)
  next
    case (Some e)
    from parse_rows_scan_failed [OF assms] sc Some show ?thesis by blast
  qed
  have C: "\<forall>t row t'. Tree_add t row = Inr t' \<longrightarrow>
            (tree_inv t \<longrightarrow> tree_inv t') \<and> raw t' = raw t @ [row_entry row] \<and>
            tokens t' = tokens t @ [row ! 1] \<and> lemmata t' = lemmata t @ [row ! 2] \<and>
            morph_tags t' = morph_tags t @ [split_on (CHR '';'') (row ! 5)]"
    by (auto simp: Tree_add_eq tree_inv_def split: if_splits)
  from A B C show ?thesis by blast
qed


theorem tree_rows_invariant_witness:
  "snd (parse_rows DocumentCorpus_init
          [[''1'', ''a'', ''b'', ''_'', ''_'', ''X;Y'', ''_'', ''_'', ''_'', ''_''], [''1.1'', ''z'']]) = None \<and>
   concat (map (\<lambda>d. raw (tree d)) (docs (fst (parse_rows DocumentCorpus_init
          [[''1'', ''a'', ''b'', ''_'', ''_'', ''X;Y'', ''_'', ''_'', ''_'', ''_''], [''1.1'', ''z'']])))) =
     [(''a'', ''b'', ''X;Y'')]"
proof -
  let ?rs = "[[''1'', ''a'', ''b'', ''_'', ''_'', ''X;Y'', ''_'', ''_'', ''_'', ''_''], [''1.1'', ''z'']]"
  have h: "snd (parse_rows DocumentCorpus_init ?rs) = None" by code_simp
  have p: "parse_rows DocumentCorpus_init ?rs =
             (fst (parse_rows DocumentCorpus_init ?rs), snd (parse_rows DocumentCorpus_init ?rs))"
    by simp
  have "concat (map (\<lambda>d. raw (tree d)) (docs (fst (parse_rows DocumentCorpus_init ?rs)))) =
          concat (map (\<lambda>d. raw (tree d)) (docs DocumentCorpus_init)) @
            map row_entry (filter is_token_row ?rs)"
    using tree_rows_invariant [OF p] h by simp
  also have "\<dots> = [(''a'', ''b'', ''X;Y'')]"
    by (simp add: DocumentCorpus_init_def is_token_row_def row_entry_def)
  finally show ?thesis using h by simp
qed

lemma scan_rows_append:
  "scan_rows st (xs @ ys) =
     (case scan_rows st xs of (st', None) \<Rightarrow> scan_rows st' ys | (st', Some e) \<Rightarrow> (st', Some e))"
proof (induction xs arbitrary: st)
  case Nil
  then show ?case by simp
next
  case (Cons x xs)
  then show ?case by (cases "parse_row st x") simp_all
qed

lemma scan_rows_length:
  "scan_rows (ds, cur) rs = ((ds', cur'), None) \<Longrightarrow> length ds' = length ds + blank_rows rs"
proof (induction rs arbitrary: ds cur)
  case Nil
  then show ?case by (simp add: blank_rows_def)
next
  case (Cons row rs)
  show ?case
  proof (cases "parse_row (ds, cur) row")
    case (Inl e)
    with Cons.prems show ?thesis by simp
  next
    case (Inr st')
    obtain ds1 cur1 where st': "st' = (ds1, cur1)" by (cases st')
    from Inr st' have pr: "parse_row (ds, cur) row = Inr (ds1, cur1)" by simp
    from parse_row_cases [OF pr] have "length ds1 = length ds + blank_rows [row]"
      by (auto simp: blank_rows_def is_token_row_def)
    moreover from Cons.prems pr have "scan_rows (ds1, cur1) rs = ((ds', cur'), None)" by simp
    from Cons.IH [OF this] have "length ds' = length ds1 + blank_rows rs" .
    ultimately show ?thesis by (simp add: blank_rows_def)
  qed
qed

lemma scan_rows_prefix_ok:
  assumes "scan_rows st (xs @ ys) = (st2, None)"
  obtains st1 where "scan_rows st xs = (st1, None)" and "scan_rows st1 ys = (st2, None)"
proof -
  obtain st1 r1 where s1: "scan_rows st xs = (st1, r1)" by (cases "scan_rows st xs")
  with assms have "r1 = None" by (cases r1) (simp_all add: scan_rows_append)
  with s1 assms have "scan_rows st xs = (st1, None)" "scan_rows st1 ys = (st2, None)"
    by (simp_all add: scan_rows_append)
  then show ?thesis using that by blast
qed

lemma Document_init_empty: "is_empty_doc Document_init"
  by (simp add: is_empty_doc_def Document_init_def)

text \<open>After a blank row the document in progress is a fresh one.\<close>

lemma scan_rows_trailing_blank:
  assumes "scan_rows (ds, cur) (pre @ [[]]) = ((ds', cur'), None)"
  shows "cur' = Document_init"
proof -
  from assms obtain st1 where 1: "scan_rows (ds, cur) pre = (st1, None)"
    and 2: "scan_rows st1 [[]] = ((ds', cur'), None)" by (rule scan_rows_prefix_ok)
  obtain ds1 cur1 where "st1 = (ds1, cur1)" by (cases st1)
  with 2 show ?thesis by (simp add: parse_row_blank)
qed

lemma scan_rows_double_blank:
  assumes "scan_rows (ds, cur) (pre @ [] # [] # post) = ((ds', cur'), None)"
  shows "length ds + blank_rows pre + 1 < length ds' \<and>
         ds' ! (length ds + blank_rows pre + 1) = Document_init"
proof -
  from assms obtain st1 where 1: "scan_rows (ds, cur) pre = (st1, None)"
    and 2: "scan_rows st1 ([] # [] # post) = ((ds', cur'), None)" by (rule scan_rows_prefix_ok)
  obtain ds1 cur1 where st1: "st1 = (ds1, cur1)" by (cases st1)
  from 1 st1 have len: "length ds1 = length ds + blank_rows pre" by (simp add: scan_rows_length)
  from 2 st1 have 3: "scan_rows (ds1 @ [cur1, Document_init], Document_init) post = ((ds', cur'), None)"
    by (simp add: parse_row_blank)
  from scan_rows_docs [OF 3] obtain new where "ds' = (ds1 @ [cur1, Document_init]) @ new" by blast
  then have "ds' = ds1 @ cur1 # Document_init # new" by simp
  with len show ?thesis by (simp add: nth_append)
qed

text \<open>
  Claim C10. The blank-line branch appends the document in progress whatever it holds and
  starts a fresh one, and the document in progress is appended once more after the scan:
  a scan that no malformed row stops appends one document for each blank row and one at
  the end. So a file whose last row is blank leaves an empty document (no tokens, no
  \<^verbatim>\<open>sent_id\<close>, no \<^verbatim>\<open>text\<close>) last in \<^verbatim>\<open>self.docs\<close>, and of two consecutive blank rows
  the second appends an empty document.
\<close>

theorem blank_rows_append_empty_documents:
  assumes "parse_rows c rs = (c', r)" and "r \<noteq> Some FormatError"
  shows "length (docs c') = length (docs c) + blank_rows rs + 1 \<and>
         (rs \<noteq> [] \<and> last rs = [] \<longrightarrow> is_empty_doc (last (docs c'))) \<and>
         (\<forall>i. Suc i < length rs \<and> rs ! i = [] \<and> rs ! Suc i = [] \<longrightarrow>
              is_empty_doc (docs c' ! (length (docs c) + blank_rows (take (Suc i) rs)))) \<and>
         (\<forall>ds cur_doc. parse_row (ds, cur_doc) [] = Inr (ds @ [cur_doc], Document_init))"
proof -
  let ?g = "\<lambda>d. (sent_id d, doc_text d, tree d)"
  obtain ds cur rr where sc0: "scan_rows (docs c, Document_init) rs = ((ds, cur), rr)"
    by (metis surj_pair)
  have rr: "rr = None"
  proof (cases rr)
    case (Some e)
    from parse_rows_scan_failed [OF assms(1)] sc0 Some assms(2) show ?thesis by blast
  qed simp
  with sc0 have sc: "scan_rows (docs c, Document_init) rs = ((ds, cur), None)" by simp
  have g: "map ?g (docs c') = map ?g (ds @ [cur])"
    by (rule parse_rows_scan_ok [OF assms(1) sc]) (simp add: move_doc_fields)
  then have "length (map ?g (docs c')) = length (map ?g (ds @ [cur]))" by simp
  then have len: "length (docs c') = length ds + 1" by simp
  have nth: "?g (docs c' ! k) = ?g ((ds @ [cur]) ! k)" if "k < length (docs c')" for k
  proof -
    from that len have "k < length (ds @ [cur])" by simp
    with that have "map ?g (docs c') ! k = ?g (docs c' ! k)" "map ?g (ds @ [cur]) ! k = ?g ((ds @ [cur]) ! k)"
      by (simp_all only: nth_map)
    with g show ?thesis by simp
  qed
  have A: "length (docs c') = length (docs c) + blank_rows rs + 1"
    using len scan_rows_length [OF sc] by simp
  have B: "rs \<noteq> [] \<and> last rs = [] \<longrightarrow> is_empty_doc (last (docs c'))"
  proof
    assume a: "rs \<noteq> [] \<and> last rs = []"
    then have "rs = butlast rs @ [[]]" by (metis append_butlast_last_id)
    with sc have "scan_rows (docs c, Document_init) (butlast rs @ [[]]) = ((ds, cur), None)" by simp
    from scan_rows_trailing_blank [OF this] have cur: "cur = Document_init" .
    from len have ne: "docs c' \<noteq> []" by auto
    then have "last (docs c') = docs c' ! length ds" using len by (simp add: last_conv_nth)
    moreover from nth [of "length ds"] len have "?g (docs c' ! length ds) = ?g cur" by simp
    ultimately show "is_empty_doc (last (docs c'))"
      using cur Document_init_empty by (simp add: is_empty_doc_def)
  qed
  have C: "\<forall>i. Suc i < length rs \<and> rs ! i = [] \<and> rs ! Suc i = [] \<longrightarrow>
              is_empty_doc (docs c' ! (length (docs c) + blank_rows (take (Suc i) rs)))"
  proof (intro allI impI)
    fix i
    assume a: "Suc i < length rs \<and> rs ! i = [] \<and> rs ! Suc i = []"
    then have il: "i < length rs" and sil: "Suc i < length rs" by simp_all
    from il have "rs = take i rs @ rs ! i # drop (Suc i) rs" by (rule id_take_nth_drop)
    moreover from sil have "drop (Suc i) rs = rs ! Suc i # drop (Suc (Suc i)) rs"
      by (rule Cons_nth_drop_Suc [symmetric])
    ultimately have split: "rs = take i rs @ [] # [] # drop (Suc (Suc i)) rs" using a by simp
    from a have tk: "take (Suc i) rs = take i rs @ [[]]" by (simp add: take_Suc_conv_app_nth)
    have bl: "blank_rows (take (Suc i) rs) = blank_rows (take i rs) + 1"
      by (simp add: tk blank_rows_def)
    from sc split have "scan_rows (docs c, Document_init) (take i rs @ [] # [] # drop (Suc (Suc i)) rs) = ((ds, cur), None)"
      by simp
    from scan_rows_double_blank [OF this]
    have k: "length (docs c) + blank_rows (take i rs) + 1 < length ds"
      and e: "ds ! (length (docs c) + blank_rows (take i rs) + 1) = Document_init" by simp_all
    let ?k = "length (docs c) + blank_rows (take (Suc i) rs)"
    from k bl len have "?k < length (docs c')" by simp
    from nth [OF this] k bl e have "?g (docs c' ! ?k) = ?g Document_init"
      by (simp add: nth_append)
    with Document_init_empty show "is_empty_doc (docs c' ! ?k)" by (simp add: is_empty_doc_def)
  qed
  from A B C parse_row_blank show ?thesis by blast
qed

theorem blank_rows_append_empty_documents_witness:
  "snd (parse_rows DocumentCorpus_init [[], []]) \<noteq> Some FormatError \<and>
   length (docs (fst (parse_rows DocumentCorpus_init [[], []]))) = 3 \<and>
   is_empty_doc (last (docs (fst (parse_rows DocumentCorpus_init [[], []])))) \<and>
   is_empty_doc (docs (fst (parse_rows DocumentCorpus_init [[], []])) ! 1)"
proof -
  let ?rs = "[[], []] :: row list"
  have h: "snd (parse_rows DocumentCorpus_init ?rs) \<noteq> Some FormatError" by code_simp
  have p: "parse_rows DocumentCorpus_init ?rs =
             (fst (parse_rows DocumentCorpus_init ?rs), snd (parse_rows DocumentCorpus_init ?rs))"
    by simp
  from blank_rows_append_empty_documents [OF p h]
  show ?thesis using h
    by (simp add: DocumentCorpus_init_def blank_rows_def)
qed

subsection \<open>The labeling pass\<close>

lemma counter_incr_sum: "sum_list (map snd (counter_incr cnt k)) = sum_list (map snd cnt) + 1"
  by (induction cnt k rule: counter_incr.induct) auto

lemma counter_incr_keys: "set (map fst (counter_incr cnt k)) = insert k (set (map fst cnt))"
  by (induction cnt k rule: counter_incr.induct) auto

lemma counter_incr_distinct: "distinct (map fst cnt) \<Longrightarrow> distinct (map fst (counter_incr cnt k))"
  by (induction cnt k rule: counter_incr.induct) (auto simp: counter_incr_keys simp del: set_map)

lemma counter_incr_map_of:
  "map_of (counter_incr cnt k) =
     (map_of cnt)(k \<mapsto> (case map_of cnt k of None \<Rightarrow> 1 | Some n \<Rightarrow> n + 1))"
  by (induction cnt k rule: counter_incr.induct) (auto simp: fun_eq_iff)

lemma foldl_counter_sum:
  "sum_list (map snd (foldl counter_incr cnt xs)) = sum_list (map snd cnt) + length xs"
  by (induction xs arbitrary: cnt) (simp_all add: counter_incr_sum)

lemma foldl_counter_keys:
  "set (map fst (foldl counter_incr cnt xs)) = set (map fst cnt) \<union> set xs"
  by (induction xs arbitrary: cnt) (auto simp: counter_incr_keys simp del: set_map)

lemma foldl_counter_distinct:
  "distinct (map fst cnt) \<Longrightarrow> distinct (map fst (foldl counter_incr cnt xs))"
  by (induction xs arbitrary: cnt) (simp_all add: counter_incr_distinct)

lemma foldl_counter_map_of:
  "map_of (foldl counter_incr cnt xs) s =
     (case map_of cnt s of
        None \<Rightarrow> if s \<in> set xs then Some (count_list xs s) else None
      | Some n \<Rightarrow> Some (n + count_list xs s))"
proof (induction xs arbitrary: cnt)
  case Nil
  then show ?case by (simp split: option.splits)
next
  case (Cons x xs)
  show ?case
    by (simp add: Cons.IH counter_incr_map_of split: option.splits)
qed

lemma count_doc_scripts_eq:
  "count_doc_scripts gen (cnt, acc) ps =
     (foldl counter_incr cnt (map (\<lambda>(wform, lm). gen wform lm) ps),
      acc @ map (\<lambda>(wform, lm). gen wform lm) ps)"
  by (induction gen "(cnt, acc)" ps arbitrary: cnt acc rule: count_doc_scripts.induct)
     (simp_all add: Let_def)

lemma count_scripts_eq:
  "count_scripts gen (cnt, dss) ds =
     (foldl counter_incr cnt (concat (map (scripts_of gen) ds)), dss @ map (scripts_of gen) ds)"
  by (induction ds arbitrary: cnt dss) (simp_all add: count_doc_scripts_eq scripts_of_def)


lemma map_raise_total:
  "(\<And>x. x \<in> set xs \<Longrightarrow> f x = Inr (g x)) \<Longrightarrow> map_raise f xs = Inr (map g xs)"
  by (induction xs) simp_all

lemma script_ids_total:
  assumes "set ss \<subseteq> fst ` set s2i"
  shows "script_ids s2i ss = Inr (map (\<lambda>s. the (map_of s2i s)) ss)"
  unfolding script_ids_def
proof (rule map_raise_total)
  fix s assume "s \<in> set ss"
  with assms have "s \<in> fst ` set s2i" by blast
  then obtain i where "map_of s2i s = Some i" by (metis domD dom_map_of_conv_image_fst)
  then show "(case map_of s2i s of None \<Rightarrow> Inl KeyError | Some i \<Rightarrow> Inr i) = Inr (the (map_of s2i s))"
    by simp
qed

lemma label_docs_total:
  "(\<And>d. d \<in> set ds \<Longrightarrow> set (f d) \<subseteq> fst ` set s2i) \<Longrightarrow>
   label_docs s2i ds (map f ds) =
     (map (\<lambda>d. d\<lparr>lemma_tags_tensor := Some (map (\<lambda>s. the (map_of s2i s)) (f d))\<rparr>) ds, None)"
  by (induction ds) (simp_all add: script_ids_total)

lemma sorted_reverse_mset: "mset (sorted_reverse key xs) = mset xs"
  by (simp add: sorted_reverse_def)

lemma sorted_reverse_set: "set (sorted_reverse key xs) = set xs"
  by (simp add: sorted_reverse_def)

lemma sorted_reverse_length: "length (sorted_reverse key xs) = length xs"
  by (simp add: sorted_reverse_def)

lemma sorted_reverse_descending:
  assumes "i \<le> j" and "j < length (sorted_reverse key xs)"
  shows "key (sorted_reverse key xs ! j) \<le> key (sorted_reverse key xs ! i)"
proof -
  let ?ys = "sorted_reverse key xs"
  have "sorted (map (\<lambda>x. - int (key x)) ?ys)" by (simp add: sorted_reverse_def)
  with assms have "map (\<lambda>x. - int (key x)) ?ys ! i \<le> map (\<lambda>x. - int (key x)) ?ys ! j"
    by (simp add: sorted_iff_nth_mono del: nth_map)
  with assms show ?thesis by simp
qed

lemma sorted_reverse_stable:
  "filter (\<lambda>x. key x = n) (sorted_reverse key xs) = filter (\<lambda>x. key x = n) xs"
proof -
  have "filter (\<lambda>x. - int (key x) = - int n) (sort_key (\<lambda>x. - int (key x)) xs) =
        filter (\<lambda>x. - int (key x) = - int n) xs"
    by (rule sort_key_stable)
  then show ?thesis by (simp add: sorted_reverse_def)
qed

lemma sorted_reverse_keys_distinct:
  "distinct (map fst xs) \<Longrightarrow> distinct (map fst (sorted_reverse key xs))"
proof -
  assume d: "distinct (map fst xs)"
  have "mset (map fst (sorted_reverse key xs)) = mset (map fst xs)"
    by (simp add: sorted_reverse_mset)
  with d show ?thesis by (metis mset_eq_imp_distinct_iff)
qed

lemma rank_scripts_keys: "fst ` set (rank_scripts counter) = fst ` set counter"
proof -
  have "set (map fst (rank_scripts counter)) = set (map fst (sorted_reverse snd counter))"
    by (simp add: rank_scripts_def enumerate_snd_def)
  then show ?thesis by (simp add: sorted_reverse_set)
qed

lemma set_lemma_tags_eq:
  "set_lemma_tags gen c =
     (let counter = foldl counter_incr [] (concat (map (scripts_of gen) (docs c)));
          s2i = rank_scripts counter
      in (c\<lparr>docs := map (\<lambda>d. d\<lparr>lemma_tags_tensor :=
                                   Some (map (\<lambda>s. the (map_of s2i s)) (scripts_of gen d))\<rparr>) (docs c),
             script_counter := Some counter, script_to_id := Some s2i,
             id_to_script := Some (map fst s2i)\<rparr>, None))"
proof -
  let ?counter = "foldl counter_incr [] (concat (map (scripts_of gen) (docs c)))"
  have "set (scripts_of gen d) \<subseteq> fst ` set (rank_scripts ?counter)" if "d \<in> set (docs c)" for d
  proof -
    from that have "set (scripts_of gen d) \<subseteq> set (concat (map (scripts_of gen) (docs c)))"
      by auto
    also have "\<dots> \<subseteq> set (map fst ?counter)"
      by (simp only: foldl_counter_keys) simp
    finally show ?thesis by (simp add: rank_scripts_keys)
  qed
  from label_docs_total [of "docs c" "scripts_of gen" "rank_scripts ?counter", OF this]
  show ?thesis by (simp add: set_lemma_tags_def count_scripts_eq Let_def)
qed

lemma scripts_of_length:
  "tree_inv (tree d) \<Longrightarrow> length (scripts_of gen d) = length (tokens (tree d))"
  by (simp add: scripts_of_def tree_inv_def)

text \<open>
  Claim C6. On a corpus whose trees have their lists of one length (as every tree built by
  \<^verbatim>\<open>Tree.add\<close> has), the labeling pass completes, and the counts of
  \<^verbatim>\<open>script_counter\<close> add up to the number of tokens of all documents.
\<close>

theorem script_counter_total:
  assumes "set_lemma_tags gen c = (c', r)" and "\<forall>d \<in> set (docs c). tree_inv (tree d)"
  shows "r = None \<and>
         (\<exists>counter. script_counter c' = Some counter \<and>
            sum_list (map snd counter) = sum_list (map (\<lambda>d. length (tokens (tree d))) (docs c')))"
proof -
  let ?counter = "foldl counter_incr [] (concat (map (scripts_of gen) (docs c)))"
  from assms(1) have r: "r = None" and sc: "script_counter c' = Some ?counter"
    and tk: "map (\<lambda>d. length (tokens (tree d))) (docs c') = map (\<lambda>d. length (tokens (tree d))) (docs c)"
    by (auto simp: set_lemma_tags_eq Let_def comp_def)
  have "sum_list (map snd ?counter) = length (concat (map (scripts_of gen) (docs c)))"
    by (simp add: foldl_counter_sum)
  also have "\<dots> = sum_list (map (\<lambda>d. length (scripts_of gen d)) (docs c))"
    by (simp add: length_concat comp_def)
  also have "\<dots> = sum_list (map (\<lambda>d. length (tokens (tree d))) (docs c))"
    using assms(2) by (simp add: scripts_of_length cong: map_cong)
  finally show ?thesis using r sc tk by simp
qed


theorem script_counter_total_witness:
  "list_all (\<lambda>d. tree_inv (tree d)) (docs (DocumentCorpus_init\<lparr>docs := [Document_init\<lparr>tree :=
        \<lparr>raw = [(''dogs'', ''dog'', ''_''), (''dog'', ''dog'', ''_'')], tokens = [''dogs'', ''dog''],
         lemmata = [''dog'', ''dog''], morph_tags = [[''_''], [''_'']]\<rparr>\<rparr>]\<rparr>)) \<and>
   snd (set_lemma_tags (\<lambda>w l. if w = l then ''id'' else ''cut'')
     (DocumentCorpus_init\<lparr>docs := [Document_init\<lparr>tree :=
        \<lparr>raw = [(''dogs'', ''dog'', ''_''), (''dog'', ''dog'', ''_'')], tokens = [''dogs'', ''dog''],
         lemmata = [''dog'', ''dog''], morph_tags = [[''_''], [''_'']]\<rparr>\<rparr>]\<rparr>)) = None \<and>
   (\<exists>counter. script_counter (fst (set_lemma_tags (\<lambda>w l. if w = l then ''id'' else ''cut'')
     (DocumentCorpus_init\<lparr>docs := [Document_init\<lparr>tree :=
        \<lparr>raw = [(''dogs'', ''dog'', ''_''), (''dog'', ''dog'', ''_'')], tokens = [''dogs'', ''dog''],
         lemmata = [''dog'', ''dog''], morph_tags = [[''_''], [''_'']]\<rparr>\<rparr>]\<rparr>))) = Some counter \<and>
      sum_list (map snd counter) = 2)"
proof -
  let ?c = "DocumentCorpus_init\<lparr>docs := [Document_init\<lparr>tree :=
        \<lparr>raw = [(''dogs'', ''dog'', ''_''), (''dog'', ''dog'', ''_'')], tokens = [''dogs'', ''dog''],
         lemmata = [''dog'', ''dog''], morph_tags = [[''_''], [''_'']]\<rparr>\<rparr>]\<rparr>"
  let ?gen = "\<lambda>w l :: string. if w = l then ''id'' else ''cut''"
  have h: "\<forall>d \<in> set (docs ?c). tree_inv (tree d)" by (simp add: tree_inv_def)
  have p: "set_lemma_tags ?gen ?c = (fst (set_lemma_tags ?gen ?c), snd (set_lemma_tags ?gen ?c))"
    by simp
  have e: "sum_list (map (\<lambda>d. length (tokens (tree d))) (docs (fst (set_lemma_tags ?gen ?c)))) = 2"
    by (simp add: set_lemma_tags_eq Let_def)
  have h': "list_all (\<lambda>d. tree_inv (tree d)) (docs ?c)" by (simp add: tree_inv_def)
  from script_counter_total [OF p h] e h' show ?thesis by simp
qed

text \<open>
  Claim C5. The labeling pass completes, and its tables are a function of the trees and of
  the script generator alone: a run on a corpus with the same trees, whatever else it
  holds, gives the same counter, the same \<^verbatim>\<open>script_to_id\<close> and \<^verbatim>\<open>id_to_script\<close> and
  the same class ids for every token. \<^verbatim>\<open>script_counter\<close> holds each script once, with the
  number of its occurrences; the ranking is a permutation of its items by descending count
  in which items of equal count keep the order they have in the counter;
  \<^verbatim>\<open>script_to_id\<close> numbers the ranked scripts from 0, \<^verbatim>\<open>id_to_script\<close> is its inverse,
  and the class id of a token is the id of its script.
\<close>

theorem lemma_ranking_deterministic:
  assumes "set_lemma_tags gen c = (c', r)"
  shows "r = None \<and>
    (\<exists>counter ranked.
       script_counter c' = Some counter \<and>
       distinct (map fst counter) \<and>
       (\<forall>s. map_of counter s =
          (if s \<in> set (concat (map (scripts_of gen) (docs c)))
           then Some (count_list (concat (map (scripts_of gen) (docs c))) s) else None)) \<and>
       mset ranked = mset counter \<and>
       (\<forall>i j. i \<le> j \<and> j < length ranked \<longrightarrow> snd (ranked ! j) \<le> snd (ranked ! i)) \<and>
       (\<forall>n. filter (\<lambda>kv. snd kv = n) ranked = filter (\<lambda>kv. snd kv = n) counter) \<and>
       id_to_script c' = Some (map fst ranked) \<and>
       script_to_id c' = Some (zip (map fst ranked) [0..<length ranked]) \<and>
       (\<forall>i < length ranked.
          map_of (zip (map fst ranked) [0..<length ranked]) (fst (ranked ! i)) = Some i) \<and>
       (\<forall>s i. map_of (zip (map fst ranked) [0..<length ranked]) s = Some i \<longrightarrow>
          i < length ranked \<and> fst (ranked ! i) = s) \<and>
       list_all2 (\<lambda>d' d. \<exists>ids. lemma_tags_tensor d' = Some ids \<and>
                     (\<forall>i \<in> set ids. i < length ranked) \<and>
                     map (\<lambda>i. fst (ranked ! i)) ids = scripts_of gen d)
         (docs c') (docs c)) \<and>
    (\<forall>c2 c2' r2. map tree (docs c2) = map tree (docs c) \<and> set_lemma_tags gen c2 = (c2', r2) \<longrightarrow>
       r2 = r \<and> script_counter c2' = script_counter c' \<and> script_to_id c2' = script_to_id c' \<and>
       id_to_script c2' = id_to_script c' \<and>
       map lemma_tags_tensor (docs c2') = map lemma_tags_tensor (docs c'))"
proof -
  let ?all = "concat (map (scripts_of gen) (docs c))"
  let ?counter = "foldl counter_incr [] ?all"
  let ?ranked = "sorted_reverse snd ?counter"
  let ?keys = "map fst ?ranked"
  let ?s2i = "zip ?keys [0..<length ?ranked]"
  have s2i: "rank_scripts ?counter = ?s2i"
    by (simp add: rank_scripts_def enumerate_snd_def)
  have keys: "map fst ?s2i = ?keys" by simp
  have dc: "distinct (map fst ?counter)" by (simp add: foldl_counter_distinct)
  then have dk: "distinct ?keys" by (rule sorted_reverse_keys_distinct)
  from assms have r: "r = None" by (simp add: set_lemma_tags_eq Let_def)
  from assms have f1: "script_counter c' = Some ?counter" "id_to_script c' = Some ?keys"
    "script_to_id c' = Some ?s2i"
    by (auto simp: set_lemma_tags_eq Let_def s2i)
  from assms have ds: "docs c' = map (\<lambda>d. d\<lparr>lemma_tags_tensor :=
        Some (map (\<lambda>s. the (map_of ?s2i s)) (scripts_of gen d))\<rparr>) (docs c)"
    by (auto simp: set_lemma_tags_eq Let_def s2i)
  have cnt: "\<forall>s. map_of ?counter s = (if s \<in> set ?all then Some (count_list ?all s) else None)"
    by (simp add: foldl_counter_map_of)
  have fwd: "map_of ?s2i (fst (?ranked ! i)) = Some i" if "i < length ?ranked" for i
  proof -
    from that have "map_of (zip ?keys [0..<length ?ranked]) (?keys ! i) = Some ([0..<length ?ranked] ! i)"
      by (intro map_of_zip_nth) (simp_all add: dk)
    with that show ?thesis by simp
  qed
  have bwd: "i < length ?ranked \<and> fst (?ranked ! i) = s" if "map_of ?s2i s = Some i" for s i
  proof -
    from that have "(s, i) \<in> set (zip ?keys [0..<length ?ranked])" by (rule map_of_SomeD)
    then obtain k where "k < length ?ranked" "?keys ! k = s" "[0..<length ?ranked] ! k = i"
      by (auto simp: in_set_zip)
    then show ?thesis by simp
  qed
  have key_in: "\<exists>i. map_of ?s2i s = Some i" if "s \<in> set ?all" for s
  proof -
    from that have "s \<in> set (map fst ?counter)" by (simp only: foldl_counter_keys) simp
    then have "s \<in> fst ` set ?s2i"
      using rank_scripts_keys [of ?counter] by (simp add: s2i)
    then show ?thesis by (metis domD dom_map_of_conv_image_fst)
  qed
  have tags: "list_all2 (\<lambda>d' d. \<exists>ids. lemma_tags_tensor d' = Some ids \<and>
                     (\<forall>i \<in> set ids. i < length ?ranked) \<and>
                     map (\<lambda>i. fst (?ranked ! i)) ids = scripts_of gen d)
         (docs c') (docs c)"
    unfolding ds list_all2_map1
  proof (rule list_all2_all_nthI)
    show "length (docs c) = length (docs c)" ..
  next
    fix n assume n: "n < length (docs c)"
    let ?d = "docs c ! n"
    let ?ids = "map (\<lambda>s. the (map_of ?s2i s)) (scripts_of gen ?d)"
    have in_all: "s \<in> set ?all" if "s \<in> set (scripts_of gen ?d)" for s
      using that n by auto
    have 1: "\<forall>i \<in> set ?ids. i < length ?ranked"
    proof
      fix i assume "i \<in> set ?ids"
      then obtain s where s: "s \<in> set (scripts_of gen ?d)" "i = the (map_of ?s2i s)" by auto
      from key_in [OF in_all [OF s(1)]] obtain j where "map_of ?s2i s = Some j" by blast
      with s bwd [of s j] show "i < length ?ranked" by simp
    qed
    have pw: "fst (?ranked ! the (map_of ?s2i s)) = s" if "s \<in> set (scripts_of gen ?d)" for s
    proof -
      from key_in [OF in_all [OF that]] obtain j where j: "map_of ?s2i s = Some j" by blast
      with bwd [of s j] show ?thesis by simp
    qed
    have "map (\<lambda>s. fst (?ranked ! the (map_of ?s2i s))) (scripts_of gen ?d) = scripts_of gen ?d"
      by (rule map_idI) (rule pw)
    then have 2: "map (\<lambda>i. fst (?ranked ! i)) ?ids = scripts_of gen ?d"
      by (simp only: map_map comp_def)
    from 1 2 show "\<exists>ids. lemma_tags_tensor (?d\<lparr>lemma_tags_tensor := Some ?ids\<rparr>) = Some ids \<and>
                     (\<forall>i \<in> set ids. i < length ?ranked) \<and>
                     map (\<lambda>i. fst (?ranked ! i)) ids = scripts_of gen ?d"
      by simp
  qed
  have det: "\<forall>c2 c2' r2. map tree (docs c2) = map tree (docs c) \<and> set_lemma_tags gen c2 = (c2', r2) \<longrightarrow>
       r2 = r \<and> script_counter c2' = script_counter c' \<and> script_to_id c2' = script_to_id c' \<and>
       id_to_script c2' = id_to_script c' \<and>
       map lemma_tags_tensor (docs c2') = map lemma_tags_tensor (docs c')"
  proof (intro allI impI)
    fix c2 c2' r2
    assume a: "map tree (docs c2) = map tree (docs c) \<and> set_lemma_tags gen c2 = (c2', r2)"
    have so: "scripts_of gen = (\<lambda>t. map (\<lambda>(wform, lm). gen wform lm) (zip (tokens t) (lemmata t))) \<circ> tree"
      by (simp add: fun_eq_iff scripts_of_def)
    from a have eq: "map (scripts_of gen) (docs c2) = map (scripts_of gen) (docs c)"
      unfolding so map_map [symmetric] by simp
    have tl: "map lemma_tags_tensor (map (\<lambda>d. d\<lparr>lemma_tags_tensor := Some (F (scripts_of gen d))\<rparr>) ds) =
                map (\<lambda>ss. Some (F ss)) (map (scripts_of gen) ds)" for F :: "string list \<Rightarrow> nat list" and ds
      by (simp add: comp_def)
    let ?F = "\<lambda>c. map (\<lambda>s. the (map_of (rank_scripts (foldl counter_incr [] (concat (map (scripts_of gen) (docs c))))) s))"
    from a have c2: "c2' = fst (set_lemma_tags gen c2)" "r2 = snd (set_lemma_tags gen c2)" by simp_all
    from assms have c1: "c' = fst (set_lemma_tags gen c)" "r = snd (set_lemma_tags gen c)" by simp_all
    have "map lemma_tags_tensor (docs c2') = map (\<lambda>ss. Some (?F c2 ss)) (map (scripts_of gen) (docs c2))"
      unfolding c2 by (simp add: set_lemma_tags_eq Let_def comp_def)
    also have "\<dots> = map (\<lambda>ss. Some (?F c ss)) (map (scripts_of gen) (docs c))"
      by (simp only: eq)
    also have "\<dots> = map lemma_tags_tensor (docs c')"
      unfolding c1 by (simp add: set_lemma_tags_eq Let_def comp_def)
    finally have 1: "map lemma_tags_tensor (docs c2') = map lemma_tags_tensor (docs c')" .
    have 2: "r2 = r \<and> script_counter c2' = script_counter c' \<and> script_to_id c2' = script_to_id c' \<and>
       id_to_script c2' = id_to_script c'"
      unfolding c1 c2 by (simp add: set_lemma_tags_eq Let_def eq)
    from 1 2 show "r2 = r \<and> script_counter c2' = script_counter c' \<and> script_to_id c2' = script_to_id c' \<and>
       id_to_script c2' = id_to_script c' \<and>
       map lemma_tags_tensor (docs c2') = map lemma_tags_tensor (docs c')" by blast
  qed
  show ?thesis
    apply (intro conjI)
      apply (rule r)
     apply (rule exI [of _ ?counter], rule exI [of _ ?ranked])
    using f1 dc cnt sorted_reverse_mset [of snd ?counter] sorted_reverse_descending [of _ _ snd ?counter]
      sorted_reverse_stable [of snd _ ?counter] fwd bwd tags
     apply (intro conjI; blast)
    apply (rule det)
    done
qed


theorem lemma_ranking_deterministic_witness:
  "snd (set_lemma_tags (\<lambda>w l. if w = l then ''id'' else ''cut'')
     (DocumentCorpus_init\<lparr>docs := [Document_init\<lparr>tree :=
        \<lparr>raw = [(''dogs'', ''dog'', ''_''), (''dog'', ''dog'', ''_'')], tokens = [''dogs'', ''dog''],
         lemmata = [''dog'', ''dog''], morph_tags = [[''_''], [''_'']]\<rparr>\<rparr>]\<rparr>)) = None \<and>
   script_to_id (fst (set_lemma_tags (\<lambda>w l. if w = l then ''id'' else ''cut'')
     (DocumentCorpus_init\<lparr>docs := [Document_init\<lparr>tree :=
        \<lparr>raw = [(''dogs'', ''dog'', ''_''), (''dog'', ''dog'', ''_'')], tokens = [''dogs'', ''dog''],
         lemmata = [''dog'', ''dog''], morph_tags = [[''_''], [''_'']]\<rparr>\<rparr>]\<rparr>))) =
     Some [(''cut'', 0), (''id'', 1)]"
proof -
  let ?c = "DocumentCorpus_init\<lparr>docs := [Document_init\<lparr>tree :=
        \<lparr>raw = [(''dogs'', ''dog'', ''_''), (''dog'', ''dog'', ''_'')], tokens = [''dogs'', ''dog''],
         lemmata = [''dog'', ''dog''], morph_tags = [[''_''], [''_'']]\<rparr>\<rparr>]\<rparr>"
  let ?gen = "\<lambda>w l :: string. if w = l then ''id'' else ''cut''"
  have p: "set_lemma_tags ?gen ?c = (fst (set_lemma_tags ?gen ?c), snd (set_lemma_tags ?gen ?c))"
    by simp
  have e: "script_to_id (fst (set_lemma_tags ?gen ?c)) = Some [(''cut'', 0), (''id'', 1)]"
    by code_simp
  from lemma_ranking_deterministic [OF p] have "snd (set_lemma_tags ?gen ?c) = None" by blast
  with e show ?thesis by simp
qed

subsection \<open>The alignment pass\<close>

lemma startswith_prefix: "startswith hay s \<longleftrightarrow> (\<exists>r. hay = s @ r)"
  by (induction hay s rule: startswith.induct) auto

lemma contains_iff: "contains s hay \<longleftrightarrow> (\<exists>p r. hay = p @ s @ r)"
proof (induction hay)
  case Nil
  then show ?case by simp
next
  case (Cons h hay)
  show ?case
  proof
    assume "contains s (h # hay)"
    then consider "startswith (h # hay) s" | "contains s hay" by auto
    then show "\<exists>p r. h # hay = p @ s @ r"
    proof cases
      case 1
      then obtain r where "h # hay = s @ r" by (auto simp: startswith_prefix)
      then have "h # hay = [] @ s @ r" by simp
      then show ?thesis by blast
    next
      case 2
      with Cons.IH obtain p r where "hay = p @ s @ r" by blast
      then have "h # hay = (h # p) @ s @ r" by simp
      then show ?thesis by blast
    qed
  next
    assume "\<exists>p r. h # hay = p @ s @ r"
    then obtain p r where pr: "h # hay = p @ s @ r" by blast
    show "contains s (h # hay)"
    proof (cases p)
      case Nil
      with pr have "startswith (h # hay) s" by (auto simp: startswith_prefix)
      then show ?thesis by simp
    next
      case (Cons a p')
      with pr have "hay = p' @ s @ r" by simp
      with Cons.IH show ?thesis by auto
    qed
  qed
qed

lemma re_search_None: "re_search t s = None \<longleftrightarrow> \<not> contains t s"
  by (induction s) auto

lemma re_search_Some:
  "re_search t s = Some start \<Longrightarrow> take (length t) (drop start s) = t \<and> start + length t \<le> length s"
proof (induction s arbitrary: start)
  case Nil
  then show ?case by (auto split: if_splits)
next
  case (Cons h s)
  show ?case
  proof (cases "startswith (h # s) t")
    case True
    with Cons.prems have "start = 0" by simp
    moreover from True obtain r where r: "h # s = t @ r" by (auto simp: startswith_prefix)
    moreover from r have "length (h # s) = length (t @ r)" by (rule arg_cong)
    ultimately show ?thesis by simp
  next
    case False
    with Cons.prems obtain st where "re_search t s = Some st" "start = Suc st" by auto
    with Cons.IH [of st] show ?thesis by simp
  qed
qed

lemma find_spans_append:
  "find_spans txt st (xs @ ys) =
     (case find_spans txt st xs of Inl e \<Rightarrow> Inl e | Inr st' \<Rightarrow> find_spans txt st' ys)"
proof (induction xs arbitrary: st)
  case Nil
  then show ?case by (cases st) simp
next
  case (Cons t ts)
  obtain e sp where st: "st = (e, sp)" by (cases st)
  show ?case unfolding st by (cases "re_search t (drop e txt)") (simp_all add: Cons.IH)
qed

lemma find_spans_fails:
  assumes "k < length ts" and "find_spans txt st (take k ts) = Inr (e, spans)"
    and "\<not> contains (ts ! k) (drop e txt)"
  shows "find_spans txt st ts = Inl AlignmentError"
proof -
  from assms(1) have "ts = take k ts @ ts ! k # drop (Suc k) ts" by (rule id_take_nth_drop)
  then have "find_spans txt st ts = find_spans txt st (take k ts @ ts ! k # drop (Suc k) ts)" by simp
  also have "\<dots> = find_spans txt (e, spans) (ts ! k # drop (Suc k) ts)"
    by (simp only: find_spans_append assms(2) sum.case)
  also have "\<dots> = Inl AlignmentError"
    using assms(3) by (simp add: re_search_None [symmetric])
  finally show ?thesis .
qed

text \<open>The state of the span loop: one span for each token, end being the end of the last.\<close>

lemma find_spans_state:
  "find_spans txt (e, sp) ts = Inr (e', sp') \<Longrightarrow>
   \<exists>new. sp' = sp @ new \<and> length new = length ts \<and>
         e' = (if new = [] then e else snd (last new))"
proof (induction ts arbitrary: e sp)
  case Nil
  then show ?case by simp
next
  case (Cons t ts)
  from Cons.prems obtain start where s: "re_search t (drop e txt) = Some start"
    and r: "find_spans txt (e + (start + length t), sp @ [(start + e, start + length t + e)]) ts = Inr (e', sp')"
    by (auto split: option.splits)
  from Cons.IH [OF r] obtain new where new: "sp' = (sp @ [(start + e, start + length t + e)]) @ new"
    "length new = length ts" "e' = (if new = [] then e + (start + length t) else snd (last new))"
    by blast
  let ?new = "(start + e, start + length t + e) # new"
  from new have "sp' = sp @ ?new \<and> length ?new = length (t # ts) \<and>
         e' = (if ?new = [] then e else snd (last ?new))"
    by (simp add: add.commute add.left_commute)
  then show ?case by blast
qed

lemma update_docs_append:
  "update_docs f (xs @ ys) =
     (case update_docs f xs of
        (xs', None) \<Rightarrow> (case update_docs f ys of (ys', r) \<Rightarrow> (xs' @ ys', r))
      | (xs', Some e) \<Rightarrow> (xs' @ ys, Some e))"
proof (induction xs)
  case Nil
  then show ?case by (simp split: prod.splits)
next
  case (Cons x xs)
  then show ?case
    by (cases "f x") (auto split: prod.splits option.splits)
qed

text \<open>
  Claim C4. When the text of a document does not hold the literal text of one of its
  tokens at or after the end of the span matched for the token before it (the spans of
  the tokens before it being found), the body of the alignment loop raises an
  AlignmentError for the document; the pass over the corpus, once the documents before it
  are aligned, stops with that error and leaves the document as it was, with no
  alignment attached.
\<close>

theorem missing_token_AlignmentError:
  assumes "doc_text d = Some txt" and "k < length (tokens (tree d))"
    and "find_spans txt (0, []) (take k (tokens (tree d))) = Inr (e, spans)"
    and "\<not> contains (tokens (tree d) ! k) (drop e txt)"
  shows "align_doc tokenizer name d = Inl AlignmentError \<and>
         (\<forall>c pre pre' post.
            docs c = pre @ d # post \<and> update_docs (align_doc tokenizer name) pre = (pre', None) \<longrightarrow>
            add_context_embs tokenizer name c = (c\<lparr>docs := pre' @ d # post\<rparr>, Some AlignmentError))"
proof -
  from find_spans_fails [OF assms(2,3,4)]
  have f: "find_spans txt (0, []) (tokens (tree d)) = Inl AlignmentError" .
  with assms(1) have a: "align_doc tokenizer name d = Inl AlignmentError"
    by (simp add: align_doc_def)
  have "add_context_embs tokenizer name c = (c\<lparr>docs := pre' @ d # post\<rparr>, Some AlignmentError)"
    if "docs c = pre @ d # post" "update_docs (align_doc tokenizer name) pre = (pre', None)"
    for c pre pre' post
    using that a by (simp add: add_context_embs_def update_docs_append)
  with a show ?thesis by blast
qed


theorem missing_token_AlignmentError_witness:
  "doc_text (Document_init\<lparr>doc_text := Some ''a b'', tree := Tree_init\<lparr>tokens := [''a'', ''c'']\<rparr>\<rparr>) = Some ''a b'' \<and>
   1 < length (tokens (tree (Document_init\<lparr>doc_text := Some ''a b'', tree := Tree_init\<lparr>tokens := [''a'', ''c'']\<rparr>\<rparr>))) \<and>
   find_spans ''a b'' (0, [])
     (take 1 (tokens (tree (Document_init\<lparr>doc_text := Some ''a b'', tree := Tree_init\<lparr>tokens := [''a'', ''c'']\<rparr>\<rparr>)))) =
     Inr (1, [(0, 1)]) \<and>
   \<not> contains (tokens (tree (Document_init\<lparr>doc_text := Some ''a b'', tree := Tree_init\<lparr>tokens := [''a'', ''c'']\<rparr>\<rparr>)) ! 1)
       (drop 1 ''a b'') \<and>
   align_doc (\<lambda>t. []) ''bert''
     (Document_init\<lparr>doc_text := Some ''a b'', tree := Tree_init\<lparr>tokens := [''a'', ''c'']\<rparr>\<rparr>) = Inl AlignmentError"
proof -
  let ?d = "Document_init\<lparr>doc_text := Some ''a b'', tree := Tree_init\<lparr>tokens := [''a'', ''c'']\<rparr>\<rparr>"
  have 1: "doc_text ?d = Some ''a b''" by simp
  have 2: "1 < length (tokens (tree ?d))" by simp
  have 3: "find_spans ''a b'' (0, []) (take 1 (tokens (tree ?d))) = Inr (1, [(0, 1)])" by simp
  have 4: "\<not> contains (tokens (tree ?d) ! 1) (drop 1 ''a b'')" by simp
  from missing_token_AlignmentError [OF 1 2 3 4, of "\<lambda>t. []" "''bert''"] 1 2 3 4
  show ?thesis by blast
qed

lemma dd_append_absent:
  "k \<notin> fst ` set kbs \<Longrightarrow> dd_append kbs k i = kbs @ [(k, [i])]"
  by (induction kbs k i rule: dd_append.induct) auto

lemma dd_append_last:
  "k \<notin> fst ` set pre \<Longrightarrow> dd_append (pre @ [(k, b)]) k i = pre @ [(k, b @ [i])]"
  by (induction pre) auto

lemma dd_append_ok:
  assumes "buckets_ok (index, corr)"
  shows "map fst (dd_append corr index i) = [0..<index + 1] \<and>
         concat (map snd (dd_append corr index i)) = concat (map snd corr) @ [i] \<and>
         (\<forall>b \<in> set (map snd (dd_append corr index i)). b \<noteq> [])"
proof (cases "index = length corr")
  case True
  from assms have keys: "map fst corr = [0..<length corr]" by (simp add: buckets_ok_def)
  then have "set (map fst corr) = {0..<length corr}" by simp
  with True have "index \<notin> fst ` set corr" by simp
  then have "dd_append corr index i = corr @ [(index, [i])]" by (rule dd_append_absent)
  with assms True keys show ?thesis by (simp add: buckets_ok_def)
next
  case False
  with assms have len: "length corr = index + 1" by (simp add: buckets_ok_def)
  then have ne: "corr \<noteq> []" by auto
  from assms have keys: "map fst corr = [0..<length corr]" by (simp add: buckets_ok_def)
  obtain pre kb where corr: "corr = pre @ [kb]" using ne by (metis append_butlast_last_id)
  obtain k b where kb: "kb = (k, b)" by (cases kb)
  from corr len have lp: "length pre = index" by simp
  from keys corr kb lp have "map fst pre @ [k] = [0..<index] @ [index]" by simp
  then have kp: "map fst pre = [0..<index]" and k: "k = index" by simp_all
  from kp have "set (map fst pre) = {0..<index}" by simp
  then have "index \<notin> fst ` set pre" by simp
  then have "dd_append (pre @ [(index, b)]) index i = pre @ [(index, b @ [i])]"
    by (rule dd_append_last)
  with corr kb k have d: "dd_append corr index i = pre @ [(index, b @ [i])]" by simp
  from assms corr have "\<forall>b \<in> set (map snd pre). b \<noteq> []" by (simp add: buckets_ok_def)
  with d kp corr kb show ?thesis by simp
qed

lemma correspond_ok:
  "correspond spans (index, corr) rest = Inr (index', corr') \<Longrightarrow>
   buckets_ok (index, corr) \<Longrightarrow> length corr \<le> length spans \<Longrightarrow>
   buckets_ok (index', corr') \<and> length corr' \<le> length spans \<and>
   concat (map snd corr') = concat (map snd corr) @ map fst rest"
proof (induction rest arbitrary: index corr)
  case Nil
  then show ?case by simp
next
  case (Cons x rest)
  obtain i s e where x: "x = (i, s, e)" by (cases x)
  let ?corr = "dd_append corr index i"
  let ?index = "if e = snd (spans ! index) then index + 1 else index"
  from Cons.prems(1) x have lt: "index < length spans"
    and rec: "correspond spans (?index, ?corr) rest = Inr (index', corr')"
    by (auto simp: Let_def split: if_splits)
  from dd_append_ok [OF Cons.prems(2), of i]
  have d: "map fst ?corr = [0..<index + 1]"
    "concat (map snd ?corr) = concat (map snd corr) @ [i]"
    "\<forall>b \<in> set (map snd ?corr). b \<noteq> []" by simp_all
  from d(1) have "length (map fst ?corr) = length [0..<index + 1]" by simp
  then have len: "length ?corr = index + 1" by simp
  with d have ok: "buckets_ok (?index, ?corr)" by (simp add: buckets_ok_def)
  from len lt have le: "length ?corr \<le> length spans" by simp
  from Cons.IH [OF rec ok le] d(2) x show ?case by simp
qed

lemma sorted_concat_order:
  "sorted_wrt (<) (concat bs) \<Longrightarrow> k1 < k2 \<Longrightarrow> k2 < length bs \<Longrightarrow>
   x \<in> set (bs ! k1) \<Longrightarrow> y \<in> set (bs ! k2) \<Longrightarrow> x < (y::nat)"
proof (induction bs arbitrary: k1 k2)
  case Nil
  then show ?case by simp
next
  case (Cons b bs)
  from Cons.prems(2) obtain k2' where k2: "k2 = Suc k2'" by (cases k2) auto
  from Cons.prems(1) have s: "sorted_wrt (<) (concat bs)"
    and cross: "\<forall>x \<in> set b. \<forall>y \<in> set (concat bs). x < y"
    by (auto simp: sorted_wrt_append)
  show ?case
  proof (cases k1)
    case 0
    from Cons.prems(3,5) k2 have "y \<in> set (concat bs)" by auto
    with cross Cons.prems(4) 0 show ?thesis by auto
  next
    case (Suc k1')
    with Cons.prems k2 Cons.IH [OF s, of k1' k2'] show ?thesis by simp
  qed
qed

text \<open>
  What the body of the alignment loop attaches when it completes. The buckets, in the order
  of their keys (the corpus-token indices \<open>0, 1, \<dots>\<close>), are not empty and, put end to
  end, are \<open>0, \<dots>, n - 1\<close>, the positions in \<^verbatim>\<open>offset_mapping[1:-1]\<close>: each of these is
  in exactly one bucket, and the entries of a bucket are below those of every later one.
\<close>

lemma alignment_coverage:
  assumes "align_doc tokenizer name d = Inr d'"
  shows "\<exists>txt buckets.
           doc_text d = Some txt \<and> context_emb d' = Some buckets \<and>
           buckets \<noteq> [] \<and> length buckets \<le> length (tokens (tree d)) \<and>
           (\<forall>b \<in> set buckets. b \<noteq> []) \<and>
           concat buckets = [0..<length (inner_slice (tokenizer txt))] \<and>
           (\<forall>i < length (inner_slice (tokenizer txt)).
              \<exists>!k. k < length buckets \<and> i \<in> set (buckets ! k)) \<and>
           (\<forall>k1 k2 i1 i2. k1 < k2 \<and> k2 < length buckets \<and> i1 \<in> set (buckets ! k1) \<and>
              i2 \<in> set (buckets ! k2) \<longrightarrow> i1 < i2)"
proof -
  from assms obtain s where s: "doc_text d = Some s"
    by (auto simp: align_doc_def split: option.splits)
  let ?offs = "inner_slice (tokenizer s)"
  from assms s obtain e spans where fs: "find_spans s (0, []) (tokens (tree d)) = Inr (e, spans)"
    by (auto simp: align_doc_def Let_def split: sum.splits)
  from assms s fs obtain index corr where co: "correspond spans (0, []) (enumerate ?offs) = Inr (index, corr)"
    by (auto simp: align_doc_def Let_def split: sum.splits)
  have "buckets_ok (0, [])" by (simp add: buckets_ok_def)
  from correspond_ok [OF co this] have cc0: "concat (map snd corr) = map fst (enumerate ?offs)"
    by simp
  have sel: "map_raise (\<lambda>kb. index_select (length (tokenizer s)) (snd kb)) corr = Inr (map snd corr)"
  proof (rule map_raise_total)
    fix kb assume kb: "kb \<in> set corr"
    have "i < length (tokenizer s)" if "i \<in> set (snd kb)" for i
    proof -
      from that kb have "i \<in> set (concat (map snd corr))" by auto
      with cc0 have "i < length ?offs" by (simp add: enumerate_def)
      then show ?thesis by (simp add: inner_slice_def)
    qed
    then show "index_select (length (tokenizer s)) (snd kb) = Inr (snd kb)"
      by (simp add: index_select_def)
  qed
  from assms s fs co sel have ne: "corr \<noteq> []" and ce: "context_emb d' = Some (map snd corr)"
    by (auto simp: align_doc_def Let_def split: if_splits)
  from find_spans_state [OF fs] have ls: "length spans = length (tokens (tree d))" by auto
  have "buckets_ok (0, [])" by (simp add: buckets_ok_def)
  from correspond_ok [OF co this] have ok: "buckets_ok (index, corr)"
    and le: "length corr \<le> length spans"
    and cc: "concat (map snd corr) = map fst (enumerate ?offs)" by simp_all
  let ?bs = "map snd corr"
  from cc have cat: "concat ?bs = [0..<length ?offs]" by (simp add: enumerate_def)
  from ok have nonempty: "\<forall>b \<in> set ?bs. b \<noteq> []" by (simp add: buckets_ok_def)
  have sorted: "sorted_wrt (<) (concat ?bs)" by (simp add: cat)
  have order: "i1 < i2" if "k1 < k2" "k2 < length ?bs" "i1 \<in> set (?bs ! k1)" "i2 \<in> set (?bs ! k2)"
    for k1 k2 i1 i2
    using sorted that by (rule sorted_concat_order)
  have uniq: "\<exists>!k. k < length ?bs \<and> i \<in> set (?bs ! k)" if "i < length ?offs" for i
  proof -
    from that cat have "i \<in> set (concat ?bs)" by simp
    then obtain b where b: "b \<in> set ?bs" "i \<in> set b" by auto
    from b(1) obtain k where "k < length ?bs" "?bs ! k = b"
      unfolding in_set_conv_nth by blast
    with b(2) have k: "k < length ?bs" "i \<in> set (?bs ! k)" by simp_all
    show ?thesis
    proof (rule ex1I [of _ k])
      show "k < length ?bs \<and> i \<in> set (?bs ! k)" using k by simp
    next
      fix k' assume k': "k' < length ?bs \<and> i \<in> set (?bs ! k')"
      show "k' = k"
      proof (rule ccontr)
        assume "k' \<noteq> k"
        then consider "k' < k" | "k < k'" by linarith
        then show False
        proof cases
          case 1
          from order [OF 1 k(1)] k' k(2) show False by blast
        next
          case 2
          from order [OF 2] k' k show False by blast
        qed
      qed
    qed
  qed
  from ne have ne': "?bs \<noteq> []" by simp
  from le ls have le': "length ?bs \<le> length (tokens (tree d))" by simp
  have uniq': "\<forall>i < length ?offs. \<exists>!k. k < length ?bs \<and> i \<in> set (?bs ! k)"
    using uniq by blast
  have order': "\<forall>k1 k2 i1 i2. k1 < k2 \<and> k2 < length ?bs \<and> i1 \<in> set (?bs ! k1) \<and>
              i2 \<in> set (?bs ! k2) \<longrightarrow> i1 < i2"
    using order by blast
  show ?thesis
  proof (intro exI conjI)
    show "doc_text d = Some s" by (rule s)
    show "context_emb d' = Some ?bs" by (rule ce)
    show "?bs \<noteq> []" by (rule ne')
    show "length ?bs \<le> length (tokens (tree d))" by (rule le')
    show "\<forall>b \<in> set ?bs. b \<noteq> []" by (rule nonempty)
    show "concat ?bs = [0..<length ?offs]" by (rule cat)
    show "\<forall>i < length ?offs. \<exists>!k. k < length ?bs \<and> i \<in> set (?bs ! k)" by (rule uniq')
    show "\<forall>k1 k2 i1 i2. k1 < k2 \<and> k2 < length ?bs \<and> i1 \<in> set (?bs ! k1) \<and>
              i2 \<in> set (?bs ! k2) \<longrightarrow> i1 < i2" by (rule order')
  qed
qed


text \<open>
  The entries of the buckets select hidden states of the whole sequence, where position 0
  is the first structural token and the sub-word tokens of the text are at
  \<open>1, \<dots>, n\<close>: position 0 is always pooled, and position \<open>n\<close>, the last sub-word
  token of the text, never is.
\<close>

lemma pooled_positions_shifted:
  assumes "align_doc tokenizer name d = Inr d'"
  shows "\<exists>txt buckets.
           doc_text d = Some txt \<and> context_emb d' = Some buckets \<and>
           2 < length (tokenizer txt) \<and>
           0 \<in> set (concat buckets) \<and>
           length (tokenizer txt) - 2 \<notin> set (concat buckets)"
proof -
  from alignment_coverage [OF assms] obtain s buckets where
    s: "doc_text d = Some s" and ce: "context_emb d' = Some buckets" and ne: "buckets \<noteq> []"
    and nb: "\<forall>b \<in> set buckets. b \<noteq> []"
    and cat: "concat buckets = [0..<length (inner_slice (tokenizer s))]"
    by (elim exE conjE)
  from ne nb have "concat buckets \<noteq> []" by (cases buckets) auto
  with cat have pos: "0 < length (inner_slice (tokenizer s))" by simp
  then have len: "2 < length (tokenizer s)"
    and il: "length (inner_slice (tokenizer s)) = length (tokenizer s) - 2"
    by (simp_all add: inner_slice_def)
  from cat pos have z: "0 \<in> set (concat buckets)" by simp
  from cat il have l: "length (tokenizer s) - 2 \<notin> set (concat buckets)" by simp
  show ?thesis
  proof (intro exI conjI)
    show "doc_text d = Some s" by (rule s)
    show "context_emb d' = Some buckets" by (rule ce)
    show "2 < length (tokenizer s)" by (rule len)
    show "0 \<in> set (concat buckets)" by (rule z)
    show "length (tokenizer s) - 2 \<notin> set (concat buckets)" by (rule l)
  qed
qed

text \<open>
  Claim C8 fails on this document. The tokenizer gives five sub-word tokens, at positions 0
  to 4, the first and the last structural, so the sub-word tokens of the text are at 1, 2
  and 3. The two rows of the contextual embedding pool the hidden states at positions 0, 1
  and at position 2: the structural position 0 is in the bucket of the first token, and
  position 3 is in no bucket.
\<close>

theorem structural_token_pooled:
  "align_doc (\<lambda>t. [(0, 0), (0, 2), (2, 5), (6, 9), (0, 0)]) ''bert''
     (Document_init\<lparr>doc_text := Some ''Hello you'', tree := Tree_init\<lparr>tokens := [''Hello'', ''you'']\<rparr>\<rparr>) =
   Inr (Document_init\<lparr>doc_text := Some ''Hello you'', tree := Tree_init\<lparr>tokens := [''Hello'', ''you'']\<rparr>,
                      context_emb := Some [[0, 1], [2]], model_name := Some ''bert''\<rparr>)"
  by code_simp

subsection \<open>The tensor of the morphological tags\<close>

lemma butlast_row: "butlast (map f [0..<n]) = map f [0..<n - 1]"
  by (cases n) (simp_all add: map_butlast [symmetric])

text \<open>
  Claim C1 fails on this file of one sentence with two tokens, the first with the tags
  \<^verbatim>\<open>X;Y\<close> and the second with none (\<^verbatim>\<open>_\<close>). The tensor of the tags has three rows for
  the two tokens, one for each tag entry: the one-hot rows of a tag set are concatenated,
  not added up into one multi-hot row for the token, which would give the rows
  \<^verbatim>\<open>[1, 1]\<close> and \<^verbatim>\<open>[0, 0]\<close>.
\<close>

theorem one_row_for_each_tag:
  "snd (parse_rows DocumentCorpus_init
          [[''1'', ''a'', ''b'', ''_'', ''_'', ''X;Y'', ''_'', ''_'', ''_'', ''_''],
           [''2'', ''c'', ''d'', ''_'', ''_'', ''_'', ''_'', ''_'', ''_'', ''_'']]) = None \<and>
   map (\<lambda>d. tokens (tree d)) (docs (fst (parse_rows DocumentCorpus_init
          [[''1'', ''a'', ''b'', ''_'', ''_'', ''X;Y'', ''_'', ''_'', ''_'', ''_''],
           [''2'', ''c'', ''d'', ''_'', ''_'', ''_'', ''_'', ''_'', ''_'', ''_'']]))) = [[''a'', ''c'']] \<and>
   map (\<lambda>d. morph_tags (tree d)) (docs (fst (parse_rows DocumentCorpus_init
          [[''1'', ''a'', ''b'', ''_'', ''_'', ''X;Y'', ''_'', ''_'', ''_'', ''_''],
           [''2'', ''c'', ''d'', ''_'', ''_'', ''_'', ''_'', ''_'', ''_'', ''_'']]))) = [[[''X'', ''Y''], [''_'']]] \<and>
   morph_tag_vocab (fst (parse_rows DocumentCorpus_init
          [[''1'', ''a'', ''b'', ''_'', ''_'', ''X;Y'', ''_'', ''_'', ''_'', ''_''],
           [''2'', ''c'', ''d'', ''_'', ''_'', ''_'', ''_'', ''_'', ''_'', ''_'']])) =
     Some [(''X'', 0), (''Y'', 1), (''_'', 2)] \<and>
   map morph_tags_tensor (docs (fst (parse_rows DocumentCorpus_init
          [[''1'', ''a'', ''b'', ''_'', ''_'', ''X;Y'', ''_'', ''_'', ''_'', ''_''],
           [''2'', ''c'', ''d'', ''_'', ''_'', ''_'', ''_'', ''_'', ''_'', ''_'']]))) =
     [Some \<lparr>ncols = 2, rows = [[1, 0], [0, 1], [0, 0]]\<rparr>]"
  by code_simp

text \<open>
  When every token of the corpus has a tag, the placeholder \<^verbatim>\<open>_\<close> is not in the
  vocabulary, and the column that the slice \<^verbatim>\<open>[:, :-1]\<close> drops is that of a tag: the
  token with the tag \<^verbatim>\<open>B\<close> gets a row of zeros.
\<close>

lemma last_tag_has_no_column:
  "snd (parse_rows DocumentCorpus_init
          [[''1'', ''a'', ''b'', ''_'', ''_'', ''A'', ''_'', ''_'', ''_'', ''_''],
           [''2'', ''c'', ''d'', ''_'', ''_'', ''B'', ''_'', ''_'', ''_'', ''_'']]) = None \<and>
   morph_tag_vocab (fst (parse_rows DocumentCorpus_init
          [[''1'', ''a'', ''b'', ''_'', ''_'', ''A'', ''_'', ''_'', ''_'', ''_''],
           [''2'', ''c'', ''d'', ''_'', ''_'', ''B'', ''_'', ''_'', ''_'', ''_'']])) =
     Some [(''A'', 0), (''B'', 1)] \<and>
   map morph_tags_tensor (docs (fst (parse_rows DocumentCorpus_init
          [[''1'', ''a'', ''b'', ''_'', ''_'', ''A'', ''_'', ''_'', ''_'', ''_''],
           [''2'', ''c'', ''d'', ''_'', ''_'', ''B'', ''_'', ''_'', ''_'', ''_'']]))) =
     [Some \<lparr>ncols = 1, rows = [[1], [0]]\<rparr>]"
  by code_simp

subsection \<open>The example scenario\<close>

lemma example_parse:
  "parse_tree_file DocumentCorpus_init example_text =
     (DocumentCorpus_init\<lparr>docs :=
        [Document_init\<lparr>tree := \<lparr>raw = [(''dog'', ''dog'', ''_'')], tokens = [''dog''],
                                lemmata = [''dog''], morph_tags = [[''_'']]\<rparr>,
                        chars_tensor := Some [[2, 4, 3]], tokens_tensor := Some [2],
                        morph_tags_tensor := Some \<lparr>ncols = 1, rows = [[0]]\<rparr>\<rparr>,
         Document_init\<lparr>tree := \<lparr>raw = [(''dogs'', ''dog'', ''Number=Plur'')], tokens = [''dogs''],
                                lemmata = [''dog''], morph_tags = [[''Number=Plur'']]\<rparr>,
                        chars_tensor := Some [[2, 4, 3, 5]], tokens_tensor := Some [3],
                        morph_tags_tensor := Some \<lparr>ncols = 1, rows = [[1]]\<rparr>\<rparr>],
        token_vocab := Some \<lparr>itos = [''<UNK>'', ''<PAD>'', ''dog'', ''dogs''], default_index = Some 0\<rparr>,
        char_vocab := Some \<lparr>itos = [''<UNK>'', ''<PAD>'', ''d'', ''g'', ''o'', ''s''], default_index = Some 0\<rparr>,
        morph_tag_vocab := Some [(''Number=Plur'', 0), (''_'', 1)]\<rparr>, None)"
  by code_simp

text \<open>
  Claim C2. On the two-sentence input of the example scenario the parse completes with two
  documents, of tokens \<^verbatim>\<open>["dog"]\<close> and \<^verbatim>\<open>["dogs"]\<close>; \<^verbatim>\<open>morph_tag_vocab\<close> maps
  \<^verbatim>\<open>Number=Plur\<close> to 0; the tensor of the tags of the second document is the row
  \<^verbatim>\<open>[1]\<close> and that of the first the row \<^verbatim>\<open>[0]\<close>; and for a script generator that
  tells the pair (dog, dog) from the pair (dogs, dog), the labeling pass completes with
  two distinct entries in \<^verbatim>\<open>script_to_id\<close>.
\<close>

theorem example_scenario:
  assumes "gen ''dog'' ''dog'' \<noteq> gen ''dogs'' ''dog''"
  shows "\<exists>c c' s2i.
           parse_tree_file DocumentCorpus_init example_text = (c, None) \<and>
           map (\<lambda>d. tokens (tree d)) (docs c) = [[''dog''], [''dogs'']] \<and>
           (\<exists>v. morph_tag_vocab c = Some v \<and> map_of v ''Number=Plur'' = Some 0) \<and>
           map_option rows (morph_tags_tensor (docs c ! 1)) = Some [[1]] \<and>
           map_option rows (morph_tags_tensor (docs c ! 0)) = Some [[0]] \<and>
           set_lemma_tags gen c = (c', None) \<and>
           script_to_id c' = Some s2i \<and> length s2i = 2 \<and> distinct (map fst s2i)"
proof -
  let ?c = "fst (parse_tree_file DocumentCorpus_init example_text)"
  have p: "parse_tree_file DocumentCorpus_init example_text = (?c, None)"
    by (simp add: example_parse)
  have t: "map (\<lambda>d. tokens (tree d)) (docs ?c) = [[''dog''], [''dogs'']]"
    by (simp add: example_parse)
  have v: "\<exists>v. morph_tag_vocab ?c = Some v \<and> map_of v ''Number=Plur'' = Some 0"
    by (simp add: example_parse)
  have m1: "map_option rows (morph_tags_tensor (docs ?c ! 1)) = Some [[1]]"
    by (simp add: example_parse)
  have m0: "map_option rows (morph_tags_tensor (docs ?c ! 0)) = Some [[0]]"
    by (simp add: example_parse)
  have sc: "concat (map (scripts_of gen) (docs ?c)) = [gen ''dog'' ''dog'', gen ''dogs'' ''dog'']"
    by (simp add: example_parse scripts_of_def)
  let ?s2i = "[(gen ''dog'' ''dog'', 0), (gen ''dogs'' ''dog'', 1 :: nat)]"
  have rk: "rank_scripts (foldl counter_incr [] [gen ''dog'' ''dog'', gen ''dogs'' ''dog'']) = ?s2i"
    using assms by (simp add: rank_scripts_def sorted_reverse_def enumerate_snd_def upt_rec [of 0] upt_rec [of 1])
  have l: "snd (set_lemma_tags gen ?c) = None" "script_to_id (fst (set_lemma_tags gen ?c)) = Some ?s2i"
    by (simp_all only: set_lemma_tags_eq Let_def sc rk) simp_all
  have l1: "set_lemma_tags gen ?c = (fst (set_lemma_tags gen ?c), None)"
    using l(1) by (metis prod.collapse)
  have d: "length ?s2i = 2 \<and> distinct (map fst ?s2i)" using assms by simp
  show ?thesis
  proof (intro exI conjI)
    show "parse_tree_file DocumentCorpus_init example_text = (?c, None)" by (rule p)
    show "map (\<lambda>d. tokens (tree d)) (docs ?c) = [[''dog''], [''dogs'']]" by (rule t)
    from v show "morph_tag_vocab ?c = Some (the (morph_tag_vocab ?c))"
      "map_of (the (morph_tag_vocab ?c)) ''Number=Plur'' = Some 0" by auto
    show "map_option rows (morph_tags_tensor (docs ?c ! 1)) = Some [[1]]" by (rule m1)
    show "map_option rows (morph_tags_tensor (docs ?c ! 0)) = Some [[0]]" by (rule m0)
    show "set_lemma_tags gen ?c = (fst (set_lemma_tags gen ?c), None)" by (rule l1)
    show "script_to_id (fst (set_lemma_tags gen ?c)) = Some ?s2i" by (rule l(2))
    show "length ?s2i = 2" by simp
    show "distinct (map fst ?s2i)" using assms by simp
  qed
qed

theorem example_scenario_witness:
  "(\<lambda>w l :: string. if w = l then ''id'' else ''cut'') ''dog'' ''dog'' \<noteq> (\<lambda>w l :: string. if w = l then ''id'' else ''cut'') ''dogs'' ''dog'' \<and>
   (\<exists>c c' s2i.
           parse_tree_file DocumentCorpus_init example_text = (c, None) \<and>
           map (\<lambda>d. tokens (tree d)) (docs c) = [[''dog''], [''dogs'']] \<and>
           (\<exists>v. morph_tag_vocab c = Some v \<and> map_of v ''Number=Plur'' = Some 0) \<and>
           map_option rows (morph_tags_tensor (docs c ! 1)) = Some [[1]] \<and>
           map_option rows (morph_tags_tensor (docs c ! 0)) = Some [[0]] \<and>
           set_lemma_tags (\<lambda>w l :: string. if w = l then ''id'' else ''cut'') c = (c', None) \<and>
           script_to_id c' = Some s2i \<and> length s2i = 2 \<and> distinct (map fst s2i))"
proof -
  have h: "(\<lambda>w l :: string. if w = l then ''id'' else ''cut'') ''dog'' ''dog'' \<noteq> (\<lambda>w l :: string. if w = l then ''id'' else ''cut'') ''dogs'' ''dog''"
    by simp
  from h example_scenario [of "(\<lambda>w l :: string. if w = l then ''id'' else ''cut'')", OF h] show ?thesis by (rule conjI)
qed

subsection \<open>Vocabularies and tensors after a parse\<close>

lemma build_vocab_Inr:
  assumes "build_vocab_from_iterator it sp = Inr v"
  shows "distinct (itos v)" and "\<exists>rest. itos v = sp @ rest" and "default_index v = None"
    and "set (itos v) = set sp \<union> set (concat it)"
proof -
  let ?counter = "foldl counter_incr [] (concat it)"
  let ?counted = "filter (\<lambda>kv. fst kv \<notin> set sp) ?counter"
  let ?sorted = "sorted_reverse snd (sort_key fst ?counted)"
  from assms have v: "v = \<lparr>itos = sp @ map fst ?sorted, default_index = None\<rparr>"
    and d: "distinct (sp @ map fst ?sorted)"
    by (auto simp: build_vocab_from_iterator_def Let_def split: if_splits)
  from v d show "distinct (itos v)" by simp
  from v show "\<exists>rest. itos v = sp @ rest" by simp
  from v show "default_index v = None" by simp
  have "set (map fst ?sorted) = fst ` set ?counted"
    by (simp add: sorted_reverse_set)
  also have "\<dots> = set (map fst ?counter) - set sp" by auto
  also have "\<dots> = set (concat it) - set sp" by (simp only: foldl_counter_keys) simp
  finally have "set (map fst ?sorted) = set (concat it) - set sp" .
  with v show "set (itos v) = set sp \<union> set (concat it)" by auto
qed

lemma index_of_Some: "index_of xs x = Some k \<Longrightarrow> k < length xs \<and> xs ! k = x"
  by (induction xs arbitrary: k) (auto split: if_splits)

lemma index_of_mem: "x \<in> set xs \<Longrightarrow> \<exists>k. index_of xs x = Some k"
  by (induction xs) auto

lemma map_raise_Inr: "map_raise f xs = Inr ys \<Longrightarrow> list_all2 (\<lambda>x y. f x = Inr y) xs ys"
proof (induction xs arbitrary: ys)
  case Nil
  then show ?case by simp
next
  case (Cons x xs)
  from Cons.prems obtain y ys' where "f x = Inr y" "map_raise f xs = Inr ys'" "ys = y # ys'"
    by (auto split: sum.splits)
  with Cons.IH [of ys'] show ?case by simp
qed

lemma lookup_indices_decode:
  assumes "lookup_indices v toks = Inr ks" and "set toks \<subseteq> set (itos v)"
  shows "map (\<lambda>k. itos v ! k) ks = toks"
proof -
  from assms(1) have "list_all2 (\<lambda>t k. Vocab_getitem v t = Inr k) toks ks"
    unfolding lookup_indices_def by (rule map_raise_Inr)
  then have "list_all2 (\<lambda>t k. itos v ! k = t) toks ks"
  proof (rule list.rel_mono_strong)
    fix t k assume tk: "t \<in> set toks" "k \<in> set ks" "Vocab_getitem v t = Inr k"
    from tk(1) assms(2) have "t \<in> set (itos v)" by blast
    from index_of_mem [OF this] obtain j where j: "index_of (itos v) t = Some j" by blast
    with tk(3) have "k = j" by (simp add: Vocab_getitem_def)
    with index_of_Some [OF j] show "itos v ! k = t" by simp
  qed
  then show ?thesis
    by (induction toks ks rule: list_all2_induct) simp_all
qed

lemma get_vocabs_None:
  assumes "get_vocabs c = (c1, None)"
  shows "\<exists>tv cv.
           build_vocab_from_iterator (all_tokens (docs c)) [unk_token c, pad_token c] = Inr tv \<and>
           build_vocab_from_iterator (all_chars (docs c)) [unk_token c, pad_token c] = Inr cv \<and>
           c1 = c\<lparr>token_vocab := Some (tv\<lparr>default_index := Some 0\<rparr>),
                  char_vocab := Some (cv\<lparr>default_index := Some 0\<rparr>),
                  morph_tag_vocab := Some (build_morph_tag_vocab (docs c))\<rparr>"
proof -
  let ?sp = "[unk_token c, pad_token c]"
  from assms obtain tv where tv: "build_vocab_from_iterator (all_tokens (docs c)) ?sp = Inr tv"
    by (cases "build_vocab_from_iterator (all_tokens (docs c)) ?sp") (simp_all add: get_vocabs_def)
  from build_vocab_Inr(2) [OF tv] obtain rest where "itos tv = ?sp @ rest" by blast
  then have g: "Vocab_getitem tv (unk_token c) = Inr 0"
    "Vocab_getitem (tv\<lparr>default_index := Some 0\<rparr>) (unk_token c) = Inr 0"
    by (simp_all add: Vocab_getitem_def)
  from assms tv g obtain cv where cv: "build_vocab_from_iterator (all_chars (docs c)) ?sp = Inr cv"
    by (cases "build_vocab_from_iterator (all_chars (docs c)) ?sp") (simp_all add: get_vocabs_def)
  from assms tv g cv have "c1 = c\<lparr>token_vocab := Some (tv\<lparr>default_index := Some 0\<rparr>),
                  char_vocab := Some (cv\<lparr>default_index := Some 0\<rparr>),
                  morph_tag_vocab := Some (build_morph_tag_vocab (docs c))\<rparr>"
    by (simp add: get_vocabs_def)
  with tv cv show ?thesis by blast
qed

lemma build_morph_tag_vocab_entries:
  "sorted (map fst (build_morph_tag_vocab ds))" "distinct (map fst (build_morph_tag_vocab ds))"
  "map snd (build_morph_tag_vocab ds) = [0..<length (build_morph_tag_vocab ds)]"
  "set (map fst (build_morph_tag_vocab ds)) = set (all_tags ds)"
  by (simp_all add: build_morph_tag_vocab_def enumerate_snd_def)

text \<open>What the tensor pass computes for the tags of a document: one row for each tag entry.\<close>

lemma tagset_tensor_Inr:
  assumes "tagset_tensor (Some v) ts = Inr m"
  shows "m = \<lparr>ncols = length v - 1, rows = map (tag_row v) ts\<rparr>"
proof -
  let ?look = "\<lambda>tag. case map_of v tag of None \<Rightarrow> Inl TorchError | Some i \<Rightarrow> Inr i"
  from assms obtain idxs m0 where idxs: "map_raise ?look ts = Inr idxs"
    and oh: "one_hot idxs (length v) = Inr m0" and m: "m = drop_last_column m0"
    by (auto simp: tagset_tensor_def split: sum.splits)
  from map_raise_Inr [OF idxs] have la: "list_all2 (\<lambda>tag i. map_of v tag = Some i) ts idxs"
    by (rule list_all2_mono) (auto split: option.splits)
  from oh have m0: "m0 = \<lparr>ncols = length v,
      rows = map (\<lambda>i. map (\<lambda>j. if j = i then 1 else 0) [0..<length v]) idxs\<rparr>"
    by (auto simp: one_hot_def split: if_splits)
  from la have "map (\<lambda>i. butlast (map (\<lambda>j. if j = i then 1 else 0 :: nat) [0..<length v])) idxs =
                map (tag_row v) ts"
  proof (induction ts idxs rule: list_all2_induct)
    case Nil
    then show ?case by simp
  next
    case (Cons tag ts i idxs)
    have "(\<lambda>j. if j = i then 1 else 0 :: nat) = (\<lambda>j. if Some i = Some j then 1 else 0)"
      by (auto simp: fun_eq_iff)
    with Cons show ?case by (simp add: tag_row_def butlast_row)
  qed
  with m m0 show ?thesis by (simp add: drop_last_column_def comp_def)
qed

lemma doc_morph_tags_tensor_Inr:
  assumes "doc_morph_tags_tensor (Some v) d = Inr m"
  shows "m = \<lparr>ncols = length v - 1, rows = concat (map (map (tag_row v)) (morph_tags (tree d)))\<rparr>"
proof -
  let ?f = "\<lambda>ts. \<lparr>ncols = length v - 1, rows = map (tag_row v) ts\<rparr>"
  from assms obtain ms where ms: "map_raise (tagset_tensor (Some v)) (morph_tags (tree d)) = Inr ms"
    and cat: "torch_cat ms = Inr m"
    by (auto simp: doc_morph_tags_tensor_def split: sum.splits)
  from map_raise_Inr [OF ms] have "list_all2 (\<lambda>ts m. m = ?f ts) (morph_tags (tree d)) ms"
    by (rule list_all2_mono) (rule tagset_tensor_Inr)
  then have eq: "ms = map ?f (morph_tags (tree d))"
    by (induction rule: list_all2_induct) simp_all
  from cat obtain m1 ms1 where "ms = m1 # ms1" by (cases ms) (auto simp: torch_cat_def)
  with cat eq show ?thesis
    by (cases "morph_tags (tree d)") (auto simp: torch_cat_def comp_def split: if_splits)
qed

lemma same_trees_Union:
  assumes "map tree xs = map tree ys"
  shows "(\<Union>d \<in> set xs. F (tree d)) = (\<Union>d \<in> set ys. F (tree d))"
proof -
  have "(\<Union>d \<in> set xs. F (tree d)) = \<Union> (F ` set (map tree xs))" by auto
  also have "\<dots> = \<Union> (F ` set (map tree ys))" by (simp only: assms)
  also have "\<dots> = (\<Union>d \<in> set ys. F (tree d))" by auto
  finally show ?thesis .
qed

lemma update_docs_all:
  "update_docs f ds = (ds', None) \<Longrightarrow> \<forall>d' \<in> set ds'. \<exists>d \<in> set ds. f d = Inr d'"
proof (induction ds arbitrary: ds')
  case Nil
  then show ?case by simp
next
  case (Cons d ds)
  show ?case
  proof (cases "f d")
    case (Inl e)
    with Cons.prems show ?thesis by simp
  next
    case (Inr d1)
    obtain ds1 r1 where u: "update_docs f ds = (ds1, r1)" by (cases "update_docs f ds")
    with Cons.prems Inr have r1: "r1 = None" and ds': "ds' = d1 # ds1" by auto
    from Cons.IH [of ds1] u r1 have "\<forall>d' \<in> set ds1. \<exists>d \<in> set ds. f d = Inr d'" by simp
    with Inr ds' show ?thesis by auto
  qed
qed

lemma move_doc_Inr:
  assumes "move_doc c d = Inr d'"
  shows "\<exists>cs ts m.
           doc_chars_tensor (char_vocab c) d = Inr cs \<and>
           doc_tokens_tensor (token_vocab c) d = Inr ts \<and>
           doc_morph_tags_tensor (morph_tag_vocab c) d = Inr m \<and>
           chars_tensor d' = Some cs \<and> tokens_tensor d' = Some ts \<and>
           morph_tags_tensor d' = Some m \<and> tree d' = tree d"
  using assms by (auto simp: move_doc_def split: sum.splits)

text \<open>The tensors that the pass gives a document whose tokens and characters are entries.\<close>

lemma move_doc_decode:
  assumes "move_doc c d = Inr d'"
    and "token_vocab c = Some tv" and "char_vocab c = Some cv" and "morph_tag_vocab c = Some mv"
    and "set (tokens (tree d)) \<subseteq> set (itos tv)"
    and "\<forall>t \<in> set (tokens (tree d)). (\<lambda>ch. [ch]) ` set t \<subseteq> set (itos cv)"
  shows "\<exists>cs ts m.
           chars_tensor d' = Some cs \<and> tokens_tensor d' = Some ts \<and>
           morph_tags_tensor d' = Some m \<and>
           map (\<lambda>k. itos tv ! k) ts = tokens (tree d') \<and>
           list_all2 (\<lambda>ks t. map (\<lambda>k. itos cv ! k) ks = map (\<lambda>ch. [ch]) t) cs (tokens (tree d')) \<and>
           ncols m = length mv - 1 \<and>
           rows m = concat (map (map (tag_row mv)) (morph_tags (tree d')))"
proof -
  from move_doc_Inr [OF assms(1)] obtain cs ts m where
    c: "doc_chars_tensor (char_vocab c) d = Inr cs"
    and t: "doc_tokens_tensor (token_vocab c) d = Inr ts"
    and m: "doc_morph_tags_tensor (morph_tag_vocab c) d = Inr m"
    and f: "chars_tensor d' = Some cs" "tokens_tensor d' = Some ts" "morph_tags_tensor d' = Some m"
    and tr: "tree d' = tree d"
    by (elim exE conjE)
  from t assms(2) have "lookup_indices tv (tokens (tree d)) = Inr ts"
    by (simp add: doc_tokens_tensor_def)
  from lookup_indices_decode [OF this assms(5)]
  have 1: "map (\<lambda>k. itos tv ! k) ts = tokens (tree d)" .
  from c assms(3) have "map_raise (\<lambda>t. lookup_indices cv (map (\<lambda>ch. [ch]) t)) (tokens (tree d)) = Inr cs"
    by (simp add: doc_chars_tensor_def)
  from map_raise_Inr [OF this]
  have "list_all2 (\<lambda>t ks. lookup_indices cv (map (\<lambda>ch. [ch]) t) = Inr ks) (tokens (tree d)) cs" .
  then have "list_all2 (\<lambda>t ks. map (\<lambda>k. itos cv ! k) ks = map (\<lambda>ch. [ch]) t) (tokens (tree d)) cs"
  proof (rule list.rel_mono_strong)
    fix t ks assume a: "t \<in> set (tokens (tree d))" "ks \<in> set cs"
      "lookup_indices cv (map (\<lambda>ch. [ch]) t) = Inr ks"
    from a(1) assms(6) have "set (map (\<lambda>ch. [ch]) t) \<subseteq> set (itos cv)" by auto
    from lookup_indices_decode [OF a(3) this]
    show "map (\<lambda>k. itos cv ! k) ks = map (\<lambda>ch. [ch]) t" .
  qed
  then have 2: "list_all2 (\<lambda>ks t. map (\<lambda>k. itos cv ! k) ks = map (\<lambda>ch. [ch]) t) cs (tokens (tree d))"
    by (simp add: list_all2_conv_all_nth)
  from m assms(4) have "doc_morph_tags_tensor (Some mv) d = Inr m" by simp
  from doc_morph_tags_tensor_Inr [OF this]
  have 3: "ncols m = length mv - 1" "rows m = concat (map (map (tag_row mv)) (morph_tags (tree d)))"
    by simp_all
  show ?thesis
  proof (intro exI conjI)
    show "chars_tensor d' = Some cs" "tokens_tensor d' = Some ts" "morph_tags_tensor d' = Some m"
      by (rule f)+
    show "map (\<lambda>k. itos tv ! k) ts = tokens (tree d')" using 1 tr by simp
    show "list_all2 (\<lambda>ks t. map (\<lambda>k. itos cv ! k) ks = map (\<lambda>ch. [ch]) t) cs (tokens (tree d'))"
      using 2 tr by simp
    show "ncols m = length mv - 1" by (rule 3)
    show "rows m = concat (map (map (tag_row mv)) (morph_tags (tree d')))" using 3(2) tr by simp
  qed
qed


text \<open>
  Claim C9. When \<^verbatim>\<open>parse_tree_file\<close> returns, the documents of the corpus are those it
  had before followed by the parsed ones, and the vocabularies are those of exactly these
  documents: the entries of \<^verbatim>\<open>token_vocab\<close> are the unknown and the padding token, first,
  and the tokens of the documents, each once; those of \<^verbatim>\<open>char_vocab\<close> are the same two
  and the characters of the tokens; the default index of both is 0; the keys of
  \<^verbatim>\<open>morph_tag_vocab\<close> are the tag entries of the documents, in sorted order, numbered from
  0. Every document, old or new, has its three tensors set against these vocabularies:
  one index for each token, that of the token; for each token one index for each of its
  characters, that of the character; and the rows of its tag entries, each with a 1 in the
  column of the id of the entry, the last id having no column.
\<close>

theorem parse_rebuilds_vocabularies_and_tensors:
  assumes "parse_rows c rs = (c', None)"
  shows "(\<exists>new. map tree (docs c') = map tree (docs c) @ new) \<and>
         length (docs c') = length (docs c) + blank_rows rs + 1 \<and>
         (\<exists>tv cv mv.
            token_vocab c' = Some tv \<and> char_vocab c' = Some cv \<and> morph_tag_vocab c' = Some mv \<and>
            distinct (itos tv) \<and> take 2 (itos tv) = [unk_token c', pad_token c'] \<and>
            default_index tv = Some 0 \<and>
            set (itos tv) =
              {unk_token c', pad_token c'} \<union> (\<Union>d \<in> set (docs c'). set (tokens (tree d))) \<and>
            distinct (itos cv) \<and> take 2 (itos cv) = [unk_token c', pad_token c'] \<and>
            default_index cv = Some 0 \<and>
            set (itos cv) =
              {unk_token c', pad_token c'} \<union>
              (\<Union>d \<in> set (docs c'). \<Union>t \<in> set (tokens (tree d)). (\<lambda>ch. [ch]) ` set t) \<and>
            sorted (map fst mv) \<and> distinct (map fst mv) \<and> map snd mv = [0..<length mv] \<and>
            set (map fst mv) =
              (\<Union>d \<in> set (docs c'). \<Union>ts \<in> set (morph_tags (tree d)). set ts) \<and>
            (\<forall>d \<in> set (docs c'). \<exists>cs ts m.
               chars_tensor d = Some cs \<and> tokens_tensor d = Some ts \<and>
               morph_tags_tensor d = Some m \<and>
               map (\<lambda>k. itos tv ! k) ts = tokens (tree d) \<and>
               list_all2 (\<lambda>ks t. map (\<lambda>k. itos cv ! k) ks = map (\<lambda>ch. [ch]) t) cs (tokens (tree d)) \<and>
               ncols m = length mv - 1 \<and>
               rows m = concat (map (map (tag_row mv)) (morph_tags (tree d)))))"
proof -
  obtain ds cur rr where sc0: "scan_rows (docs c, Document_init) rs = ((ds, cur), rr)"
    by (metis surj_pair)
  have rr: "rr = None"
  proof (cases rr)
    case (Some e)
    from parse_rows_scan_failed [OF assms] sc0 Some show ?thesis by simp
  qed simp
  with sc0 have sc: "scan_rows (docs c, Document_init) rs = ((ds, cur), None)" by simp
  let ?c0 = "c\<lparr>docs := ds @ [cur]\<rparr>"
  obtain c1 r1 where gv0: "get_vocabs ?c0 = (c1, r1)" by (cases "get_vocabs ?c0")
  have r1: "r1 = None"
  proof (cases r1)
    case (Some e)
    with assms sc gv0 show ?thesis by (simp add: parse_rows_def)
  qed simp
  with gv0 have gv: "get_vocabs ?c0 = (c1, None)" by simp
  from assms sc gv have mv: "move_to_pt c1 = (c', None)" by (simp add: parse_rows_def)
  let ?sp = "[unk_token c, pad_token c]"
  from get_vocabs_None [OF gv] obtain tv0 cv0 where
    btv: "build_vocab_from_iterator (all_tokens (ds @ [cur])) ?sp = Inr tv0"
    and bcv: "build_vocab_from_iterator (all_chars (ds @ [cur])) ?sp = Inr cv0"
    and c1: "c1 = ?c0\<lparr>token_vocab := Some (tv0\<lparr>default_index := Some 0\<rparr>),
                      char_vocab := Some (cv0\<lparr>default_index := Some 0\<rparr>),
                      morph_tag_vocab := Some (build_morph_tag_vocab (ds @ [cur]))\<rparr>"
    by auto
  let ?tv = "tv0\<lparr>default_index := Some 0\<rparr>"
  let ?cv = "cv0\<lparr>default_index := Some 0\<rparr>"
  let ?mv = "build_morph_tag_vocab (ds @ [cur])"
  obtain ds' r' where u: "update_docs (move_doc c1) (docs c1) = (ds', r')"
    by (cases "update_docs (move_doc c1) (docs c1)")
  with mv have r': "r' = None" and c': "c' = c1\<lparr>docs := ds'\<rparr>" by (simp_all add: move_to_pt_def)
  have d1: "docs c1 = ds @ [cur]" by (simp add: c1)
  have "map tree ds' = map tree (docs c1)"
    by (rule update_docs_map [of "move_doc c1" tree, OF _ u]) (simp add: move_doc_fields)
  with d1 have trees: "map tree ds' = map tree (ds @ [cur])" by simp
  have dc': "docs c' = ds'" by (simp add: c')
  have sp: "unk_token c' = unk_token c" "pad_token c' = pad_token c" by (simp_all add: c' c1)
  have voc: "token_vocab c' = Some ?tv" "char_vocab c' = Some ?cv" "morph_tag_vocab c' = Some ?mv"
    by (simp_all add: c' c1)
  have voc1: "token_vocab c1 = Some ?tv" "char_vocab c1 = Some ?cv" "morph_tag_vocab c1 = Some ?mv"
    by (simp_all add: c1)
  \<comment> \<open>the documents\<close>
  from scan_rows_docs [OF sc] obtain new where new: "ds = docs c @ new" by blast
  have A: "\<exists>new. map tree (docs c') = map tree (docs c) @ new"
    using trees new dc' by simp
  from trees have "length (map tree ds') = length (map tree (ds @ [cur]))" by simp
  then have B: "length (docs c') = length (docs c) + blank_rows rs + 1"
    using scan_rows_length [OF sc] dc' by simp
  \<comment> \<open>the entries of the vocabularies\<close>
  have toks: "set (concat (all_tokens (ds @ [cur]))) = (\<Union>d \<in> set (ds @ [cur]). set (tokens (tree d)))"
    by (auto simp: all_tokens_def)
  have chars: "set (concat (all_chars (ds @ [cur]))) =
      (\<Union>d \<in> set (ds @ [cur]). \<Union>t \<in> set (tokens (tree d)). (\<lambda>ch. [ch]) ` set t)"
    by (auto simp: all_chars_def)
  have tags: "set (all_tags (ds @ [cur])) =
      (\<Union>d \<in> set (ds @ [cur]). \<Union>ts \<in> set (morph_tags (tree d)). set ts)"
    by (auto simp: all_tags_def)
  note tr = trees [symmetric]
  have toks': "set (concat (all_tokens (ds @ [cur]))) = (\<Union>d \<in> set (docs c'). set (tokens (tree d)))"
    unfolding toks dc' by (rule same_trees_Union [OF tr])
  have chars': "set (concat (all_chars (ds @ [cur]))) =
      (\<Union>d \<in> set (docs c'). \<Union>t \<in> set (tokens (tree d)). (\<lambda>ch. [ch]) ` set t)"
    unfolding chars dc' by (rule same_trees_Union [OF tr])
  have tags': "set (all_tags (ds @ [cur])) =
      (\<Union>d \<in> set (docs c'). \<Union>ts \<in> set (morph_tags (tree d)). set ts)"
    unfolding tags dc' by (rule same_trees_Union [OF tr])
  from build_vocab_Inr [OF btv] obtain rest where
    tv1: "distinct (itos ?tv)" and tv2: "itos ?tv = ?sp @ rest"
    and tv3: "set (itos ?tv) = set ?sp \<union> set (concat (all_tokens (ds @ [cur])))"
    by auto
  from build_vocab_Inr [OF bcv] obtain rest' where
    cv1: "distinct (itos ?cv)" and cv2: "itos ?cv = ?sp @ rest'"
    and cv3: "set (itos ?cv) = set ?sp \<union> set (concat (all_chars (ds @ [cur])))"
    by auto
  have T: "distinct (itos ?tv)" "take 2 (itos ?tv) = [unk_token c', pad_token c']"
    "default_index ?tv = Some 0"
    "set (itos ?tv) = {unk_token c', pad_token c'} \<union> (\<Union>d \<in> set (docs c'). set (tokens (tree d)))"
    using tv1 tv2 tv3 by (simp_all add: sp toks' [symmetric] insert_commute)
  have C: "distinct (itos ?cv)" "take 2 (itos ?cv) = [unk_token c', pad_token c']"
    "default_index ?cv = Some 0"
    "set (itos ?cv) = {unk_token c', pad_token c'} \<union>
       (\<Union>d \<in> set (docs c'). \<Union>t \<in> set (tokens (tree d)). (\<lambda>ch. [ch]) ` set t)"
    using cv1 cv2 cv3 by (simp_all add: sp chars' [symmetric] insert_commute)
  have M: "sorted (map fst ?mv)" "distinct (map fst ?mv)" "map snd ?mv = [0..<length ?mv]"
    "set (map fst ?mv) = (\<Union>d \<in> set (docs c'). \<Union>ts \<in> set (morph_tags (tree d)). set ts)"
    using build_morph_tag_vocab_entries [of "ds @ [cur]"] by (simp_all only: tags')
  \<comment> \<open>the tensors\<close>
  have D: "\<forall>d \<in> set (docs c'). \<exists>cs ts m.
               chars_tensor d = Some cs \<and> tokens_tensor d = Some ts \<and>
               morph_tags_tensor d = Some m \<and>
               map (\<lambda>k. itos ?tv ! k) ts = tokens (tree d) \<and>
               list_all2 (\<lambda>ks t. map (\<lambda>k. itos ?cv ! k) ks = map (\<lambda>ch. [ch]) t) cs (tokens (tree d)) \<and>
               ncols m = length ?mv - 1 \<and>
               rows m = concat (map (map (tag_row ?mv)) (morph_tags (tree d)))"
  proof
    fix d assume "d \<in> set (docs c')"
    with dc' have "d \<in> set ds'" by simp
    with update_docs_all [of "move_doc c1" "docs c1" ds'] u r'
    obtain d0 where d0: "d0 \<in> set (docs c1)" "move_doc c1 d0 = Inr d" by blast
    from d0(1) d1 have in0: "d0 \<in> set (ds @ [cur])" by simp
    have s1: "set (tokens (tree d0)) \<subseteq> set (itos ?tv)"
      unfolding tv3 toks using in0 by blast
    have s2: "\<forall>t \<in> set (tokens (tree d0)). (\<lambda>ch. [ch]) ` set t \<subseteq> set (itos ?cv)"
      unfolding cv3 chars using in0 by blast
    show "\<exists>cs ts m.
               chars_tensor d = Some cs \<and> tokens_tensor d = Some ts \<and>
               morph_tags_tensor d = Some m \<and>
               map (\<lambda>k. itos ?tv ! k) ts = tokens (tree d) \<and>
               list_all2 (\<lambda>ks t. map (\<lambda>k. itos ?cv ! k) ks = map (\<lambda>ch. [ch]) t) cs (tokens (tree d)) \<and>
               ncols m = length ?mv - 1 \<and>
               rows m = concat (map (map (tag_row ?mv)) (morph_tags (tree d)))"
      by (rule move_doc_decode [OF d0(2) voc1 s1 s2])
  qed
  show ?thesis
  proof (intro conjI)
    show "\<exists>new. map tree (docs c') = map tree (docs c) @ new" by (rule A)
    show "length (docs c') = length (docs c) + blank_rows rs + 1" by (rule B)
    show "\<exists>tv cv mv.
            token_vocab c' = Some tv \<and> char_vocab c' = Some cv \<and> morph_tag_vocab c' = Some mv \<and>
            distinct (itos tv) \<and> take 2 (itos tv) = [unk_token c', pad_token c'] \<and>
            default_index tv = Some 0 \<and>
            set (itos tv) =
              {unk_token c', pad_token c'} \<union> (\<Union>d \<in> set (docs c'). set (tokens (tree d))) \<and>
            distinct (itos cv) \<and> take 2 (itos cv) = [unk_token c', pad_token c'] \<and>
            default_index cv = Some 0 \<and>
            set (itos cv) =
              {unk_token c', pad_token c'} \<union>
              (\<Union>d \<in> set (docs c'). \<Union>t \<in> set (tokens (tree d)). (\<lambda>ch. [ch]) ` set t) \<and>
            sorted (map fst mv) \<and> distinct (map fst mv) \<and> map snd mv = [0..<length mv] \<and>
            set (map fst mv) =
              (\<Union>d \<in> set (docs c'). \<Union>ts \<in> set (morph_tags (tree d)). set ts) \<and>
            (\<forall>d \<in> set (docs c'). \<exists>cs ts m.
               chars_tensor d = Some cs \<and> tokens_tensor d = Some ts \<and>
               morph_tags_tensor d = Some m \<and>
               map (\<lambda>k. itos tv ! k) ts = tokens (tree d) \<and>
               list_all2 (\<lambda>ks t. map (\<lambda>k. itos cv ! k) ks = map (\<lambda>ch. [ch]) t) cs (tokens (tree d)) \<and>
               ncols m = length mv - 1 \<and>
               rows m = concat (map (map (tag_row mv)) (morph_tags (tree d))))"
    proof (intro exI conjI)
      show "token_vocab c' = Some ?tv" "char_vocab c' = Some ?cv" "morph_tag_vocab c' = Some ?mv"
        by (rule voc)+
      show "distinct (itos ?tv)" "take 2 (itos ?tv) = [unk_token c', pad_token c']"
        "default_index ?tv = Some 0"
        "set (itos ?tv) = {unk_token c', pad_token c'} \<union> (\<Union>d \<in> set (docs c'). set (tokens (tree d)))"
        by (rule T)+
      show "distinct (itos ?cv)" "take 2 (itos ?cv) = [unk_token c', pad_token c']"
        "default_index ?cv = Some 0"
        "set (itos ?cv) = {unk_token c', pad_token c'} \<union>
           (\<Union>d \<in> set (docs c'). \<Union>t \<in> set (tokens (tree d)). (\<lambda>ch. [ch]) ` set t)"
        by (rule C)+
      show "sorted (map fst ?mv)" "distinct (map fst ?mv)" "map snd ?mv = [0..<length ?mv]"
        "set (map fst ?mv) = (\<Union>d \<in> set (docs c'). \<Union>ts \<in> set (morph_tags (tree d)). set ts)"
        by (rule M)+
      show "\<forall>d \<in> set (docs c'). \<exists>cs ts m.
               chars_tensor d = Some cs \<and> tokens_tensor d = Some ts \<and>
               morph_tags_tensor d = Some m \<and>
               map (\<lambda>k. itos ?tv ! k) ts = tokens (tree d) \<and>
               list_all2 (\<lambda>ks t. map (\<lambda>k. itos ?cv ! k) ks = map (\<lambda>ch. [ch]) t) cs (tokens (tree d)) \<and>
               ncols m = length ?mv - 1 \<and>
               rows m = concat (map (map (tag_row ?mv)) (morph_tags (tree d)))"
        by (rule D)
    qed
  qed
qed


theorem parse_rebuilds_vocabularies_and_tensors_witness:
  "parse_rows (fst (parse_rows DocumentCorpus_init
        [[''1'', ''a'', ''b'', ''_'', ''_'', ''X'', ''_'', ''_'', ''_'', ''_'']]))
     [[''1'', ''A'', ''b'', ''_'', ''_'', ''Y'', ''_'', ''_'', ''_'', ''_'']] =
     ((fst (parse_rows (fst (parse_rows DocumentCorpus_init
        [[''1'', ''a'', ''b'', ''_'', ''_'', ''X'', ''_'', ''_'', ''_'', ''_'']]))
        [[''1'', ''A'', ''b'', ''_'', ''_'', ''Y'', ''_'', ''_'', ''_'', ''_'']])), None) \<and>
   length (docs (fst (parse_rows DocumentCorpus_init
        [[''1'', ''a'', ''b'', ''_'', ''_'', ''X'', ''_'', ''_'', ''_'', ''_'']]))) = 1 \<and>
   map tokens_tensor (docs (fst (parse_rows DocumentCorpus_init
        [[''1'', ''a'', ''b'', ''_'', ''_'', ''X'', ''_'', ''_'', ''_'', ''_'']]))) = [Some [2]] \<and>
   length (docs (fst (parse_rows (fst (parse_rows DocumentCorpus_init
        [[''1'', ''a'', ''b'', ''_'', ''_'', ''X'', ''_'', ''_'', ''_'', ''_'']]))
        [[''1'', ''A'', ''b'', ''_'', ''_'', ''Y'', ''_'', ''_'', ''_'', ''_'']]))) = 2 \<and>
   map tokens_tensor (docs (fst (parse_rows (fst (parse_rows DocumentCorpus_init
        [[''1'', ''a'', ''b'', ''_'', ''_'', ''X'', ''_'', ''_'', ''_'', ''_'']]))
        [[''1'', ''A'', ''b'', ''_'', ''_'', ''Y'', ''_'', ''_'', ''_'', ''_'']]))) = [Some [3], Some [2]] \<and>
   (\<exists>new. map tree (docs (fst (parse_rows (fst (parse_rows DocumentCorpus_init
        [[''1'', ''a'', ''b'', ''_'', ''_'', ''X'', ''_'', ''_'', ''_'', ''_'']]))
        [[''1'', ''A'', ''b'', ''_'', ''_'', ''Y'', ''_'', ''_'', ''_'', ''_'']]))) =
      map tree (docs (fst (parse_rows DocumentCorpus_init
        [[''1'', ''a'', ''b'', ''_'', ''_'', ''X'', ''_'', ''_'', ''_'', ''_'']]))) @ new)"
proof -
  let ?c0 = "(fst (parse_rows DocumentCorpus_init
        [[''1'', ''a'', ''b'', ''_'', ''_'', ''X'', ''_'', ''_'', ''_'', ''_'']]))"
  let ?rs = "[[''1'', ''A'', ''b'', ''_'', ''_'', ''Y'', ''_'', ''_'', ''_'', ''_'']]"
  have h: "snd (parse_rows ?c0 ?rs) = None" by code_simp
  have p: "parse_rows ?c0 ?rs = (fst (parse_rows ?c0 ?rs), None)"
    using h by (metis prod.collapse)
  note t = parse_rebuilds_vocabularies_and_tensors [OF p]
  note a = t [THEN conjunct1]
  note b = t [THEN conjunct2, THEN conjunct1]
  have e1: "length (docs ?c0) = 1" by code_simp
  have e2: "map tokens_tensor (docs ?c0) = [Some [2]]" by code_simp
  have e3: "map tokens_tensor (docs (fst (parse_rows ?c0 ?rs))) = [Some [3], Some [2]]" by code_simp
  have "length (docs ?c0) + blank_rows ?rs + 1 = 2" using e1 by (simp add: blank_rows_def)
  with b have c: "length (docs (fst (parse_rows ?c0 ?rs))) = 2" by (rule trans)
  from p e1 e2 c e3 a show ?thesis by (intro conjI)
qed

end
